theory Spec2Isabelle
  imports Complex_Main "HOL-Library.Sublist" "HOL-Library.Multiset" "HOL-Library.Log_Nat"
begin

section \<open>The OBS connection manager (class OBSManager)\<close>

subsection \<open>Inputs and their classification\<close>

text \<open>
  An enumerated input is a Python dict with string keys. The values the manager reads
  (\<open>inputKind\<close>, \<open>inputName\<close>) are strings or null.
\<close>

datatype jval = JNull | JStr string

type_synonym input = "string \<rightharpoonup> jval"

text \<open>Python's \<open>k in s\<close> on strings: \<open>k\<close> occurs in \<open>s\<close> as a contiguous run.\<close>

fun contains :: "string \<Rightarrow> string \<Rightarrow> bool" where
  "contains k [] = (k = [])"
| "contains k (c # cs) = (prefix k (c # cs) \<or> contains k cs)"

definition MIC_KINDS :: "string list" where
  "MIC_KINDS = [''wasapi_input'', ''pulse_input'', ''coreaudio_input'',
                ''alsa_input'', ''jack_input'', ''audio_input'']"

text \<open>\<open>kind = inp.get("inputKind", "") or ""\<close>: an absent key, null and the empty string
  all give the empty string.\<close>

definition kind_of :: "input \<Rightarrow> string" where
  "kind_of inp = (case inp ''inputKind'' of
                    None \<Rightarrow> ''''
                  | Some JNull \<Rightarrow> ''''
                  | Some (JStr s) \<Rightarrow> s)"

text \<open>\<open>name = inp.get("inputName", "")\<close>: only an absent key gives the default.\<close>

definition name_of :: "input \<Rightarrow> jval" where
  "name_of inp = (case inp ''inputName'' of None \<Rightarrow> JStr '''' | Some v \<Rightarrow> v)"

text \<open>\<open>any(k in kind for k in (...))\<close>\<close>

definition is_mic_input :: "input \<Rightarrow> bool" where
  "is_mic_input inp = list_ex (\<lambda>k. contains k (kind_of inp)) MIC_KINDS"

definition mic_inputs :: "input list \<Rightarrow> input list" where
  "mic_inputs inputs = filter is_mic_input inputs"

subsection \<open>The protocol client as seen during one poll\<close>

text \<open>A call of the protocol client either raises or returns.\<close>

datatype 'a reply = Raises | Reply 'a

text \<open>
  The response of \<open>get_input_list\<close>; \<open>inputs\<close> is \<open>None\<close> when the response object
  has no attribute of that name (\<open>hasattr(resp, "inputs")\<close> is false).
\<close>

record list_resp =
  inputs :: "input list option"

text \<open>
  What the host answers while one poll runs: the reply to the input-list request, and
  the reply to the mute request for each name (the value of \<open>input_muted\<close>).
\<close>

record obs_env =
  get_input_list :: "list_resp reply"
  get_input_mute :: "jval \<Rightarrow> bool reply"

subsection \<open>Manager state and the signals it emits\<close>

text \<open>
  Everything the manager does to the outside is recorded, in order, in \<open>trace\<close>:
  a session opened (\<open>obsws.ReqClient(...)\<close> returned handle \<open>h\<close>), the close of a
  session's socket with whether \<open>close()\<close> returned normally, and the two callbacks.
\<close>

datatype event = Open nat | Close nat bool | OnConn bool | OnState bool

record mgr =
  ws :: "nat option"
  connected :: bool
  running :: bool
  next_handle :: nat
  trace :: "event list"

definition init_mgr :: mgr where
  "init_mgr = \<lparr>ws = None, connected = False, running = True, next_handle = 0, trace = []\<rparr>"

definition emit :: "event \<Rightarrow> mgr \<Rightarrow> mgr" where
  "emit e s = s\<lparr>trace := trace s @ [e]\<rparr>"

text \<open>
  \<open>_connect\<close>. \<open>obsws_present\<close> is false when the import of the client library failed
  (\<open>obsws is None\<close>); \<open>handshake\<close> tells whether \<open>ReqClient(...)\<close> returns or raises.
  The callback is the coordinator's, which catches every exception itself.
\<close>

definition connect :: "bool \<Rightarrow> bool \<Rightarrow> mgr \<Rightarrow> mgr" where
  "connect obsws_present handshake s =
     (if \<not> obsws_present then s
      else if handshake then
        emit (OnConn True)
          (emit (Open (next_handle s))
             (s\<lparr>ws := Some (next_handle s), connected := True,
                next_handle := Suc (next_handle s)\<rparr>))
      else s\<lparr>ws := None, connected := False\<rparr>)"

text \<open>\<open>_disconnect\<close>; \<open>close_ok\<close> tells whether the socket's \<open>close()\<close> returns or raises
  (the exception is swallowed).\<close>

definition disconnect :: "bool \<Rightarrow> mgr \<Rightarrow> mgr" where
  "disconnect close_ok s =
     (let s1 = s\<lparr>connected := False, ws := None\<rparr>;
          s2 = (case ws s of None \<Rightarrow> s1 | Some h \<Rightarrow> emit (Close h close_ok) s1)
      in emit (OnConn False) s2)"

text \<open>The loop over \<open>mic_inputs\<close> in \<open>_poll_mute\<close>: a request that raises counts as
  muted, and the first muted input ends the loop.\<close>

fun mics_all_live :: "(jval \<Rightarrow> bool reply) \<Rightarrow> input list \<Rightarrow> bool" where
  "mics_all_live mute [] = True"
| "mics_all_live mute (inp # rest) =
     (let muted = (case mute (name_of inp) of Raises \<Rightarrow> True | Reply m \<Rightarrow> m)
      in if muted then False else mics_all_live mute rest)"

text \<open>\<open>_poll_mute\<close>: the result (\<open>None\<close>, \<open>False\<close> or \<open>True\<close>) and the state after it.\<close>

definition poll_mute :: "obs_env \<Rightarrow> bool \<Rightarrow> mgr \<Rightarrow> bool option \<times> mgr" where
  "poll_mute env close_ok s =
     (case ws s of
        None \<Rightarrow> (None, s)
      | Some h \<Rightarrow>
          (case get_input_list env of
             Raises \<Rightarrow> (None, disconnect close_ok s)
           | Reply resp \<Rightarrow>
               (let ins = (case inputs resp of None \<Rightarrow> [] | Some xs \<Rightarrow> xs);
                    mics = mic_inputs ins
                in if mics = [] then (Some False, s)
                   else (Some (mics_all_live (get_input_mute env) mics), s))))"

subsection \<open>The tick loop\<close>

text \<open>What the outside does during one pass of the loop body.\<close>

record tick_in =
  obs_up :: bool
  obsws_present :: bool
  hs_first :: bool
  hs_second :: bool
  close_ok :: bool
  env :: obs_env

text \<open>One pass of the body of \<open>_loop\<close>; the first component is \<open>was_obs_running\<close>.\<close>

definition tick :: "tick_in \<Rightarrow> bool \<times> mgr \<Rightarrow> bool \<times> mgr" where
  "tick i st =
     (let was = fst st; s = snd st;
          s1 = (if obs_up i \<and> \<not> connected s then connect (obsws_present i) (hs_first i) s
                else if \<not> obs_up i \<and> connected s then disconnect (close_ok i) s
                else s);
          s2 = (if \<not> obs_up i \<and> was then emit (OnConn False) s1 else s1);
          s3 = (if obs_up i \<and> \<not> was then
                  (if \<not> connected s2 then connect (obsws_present i) (hs_second i) s2 else s2)
                else s2);
          s4 = (if connected s3 then
                  (case poll_mute (env i) (close_ok i) s3 of
                     (None, s') \<Rightarrow> s'
                   | (Some r, s') \<Rightarrow> emit (OnState r) s')
                else s3)
      in (obs_up i, s4))"

text \<open>\<open>while self._running: ...\<close> over the outside's behaviour in successive passes.\<close>

fun loop :: "tick_in list \<Rightarrow> bool \<times> mgr \<Rightarrow> bool \<times> mgr" where
  "loop [] st = st"
| "loop (i # rest) st = (if running (snd st) then loop rest (tick i st) else st)"

text \<open>The handles held after a trace: opened and not yet closed.\<close>

fun held_step :: "nat list \<Rightarrow> event \<Rightarrow> nat list" where
  "held_step hs (Open h) = hs @ [h]"
| "held_step hs (Close h ok) = removeAll h hs"
| "held_step hs (OnConn b) = hs"
| "held_step hs (OnState b) = hs"

definition held :: "event list \<Rightarrow> nat list" where
  "held tr = foldl held_step [] tr"

text \<open>The invariant of the manager's state that every pass of the loop keeps.\<close>

definition mgr_inv :: "mgr \<Rightarrow> bool" where
  "mgr_inv s \<longleftrightarrow>
     (connected s \<longleftrightarrow> ws s \<noteq> None) \<and>
     held (trace s) = (case ws s of None \<Rightarrow> [] | Some h \<Rightarrow> [h]) \<and>
     (\<forall>p. prefix p (trace s) \<longrightarrow> length (held p) \<le> 1) \<and>
     (\<forall>p h. prefix (p @ [Open h]) (trace s) \<longrightarrow> held p = [])"

subsection \<open>Concrete inputs, hosts and sessions\<close>

definition mic1 :: input where
  "mic1 = [''inputName'' \<mapsto> JStr ''Mic1'', ''inputKind'' \<mapsto> JStr ''wasapi_input_capture'']"

definition cam1 :: input where
  "cam1 = [''inputName'' \<mapsto> JStr ''Cam'', ''inputKind'' \<mapsto> JStr ''dshow_input'']"

text \<open>A host with one camera and one unmuted microphone.\<close>

definition env_live :: obs_env where
  "env_live = \<lparr>get_input_list = Reply \<lparr>inputs = Some [cam1, mic1]\<rparr>,
               get_input_mute = (\<lambda>n. if n = JStr ''Mic1'' then Reply False else Raises)\<rparr>"

text \<open>The same host when every mute request raises.\<close>

definition env_mute_fault :: obs_env where
  "env_mute_fault = \<lparr>get_input_list = Reply \<lparr>inputs = Some [cam1, mic1]\<rparr>,
                     get_input_mute = (\<lambda>n. Raises)\<rparr>"

text \<open>A host whose input-list request raises.\<close>

definition env_list_fault :: obs_env where
  "env_list_fault = \<lparr>get_input_list = Raises, get_input_mute = (\<lambda>n. Raises)\<rparr>"

definition up_with :: "obs_env \<Rightarrow> tick_in" where
  "up_with e = \<lparr>obs_up = True, obsws_present = True, hs_first = True, hs_second = True,
                close_ok = True, env = e\<rparr>"

text \<open>The manager right after its first successful handshake.\<close>

definition session0 :: mgr where
  "session0 = \<lparr>ws = Some 0, connected = True, running = True, next_handle = 1,
               trace = [Open 0, OnConn True]\<rparr>"

section \<open>Python floats\<close>

text \<open>
  A Python float is an IEEE 754 binary64 number. A finite float is modelled by the
  rational it denotes; \<open>fl\<close> rounds a rational to the nearest float, ties to the even
  significand, on the magnitude (the sign is kept apart, as in the format). A float has
  53 significant bits and a least exponent of \<open>-1022\<close>, below which the spacing stays
  \<open>2 powi (-1074)\<close>. Every arithmetic operation of the program on floats is the exact
  operation followed by \<open>fl\<close>. Infinities, NaN and the sign of zero are not modelled:
  no value of this program comes near \<open>2 powi 1024\<close>, and no result depends on the sign
  of a zero.
\<close>

type_synonym float = rat

text \<open>Nearest integer, a tie going to the even one.\<close>

definition rne :: "rat \<Rightarrow> int" where
  "rne x = (let f = \<lfloor>x\<rfloor>; r = x - of_int f
            in if r < 1 / 2 then f
               else if 1 / 2 < r then f + 1
               else if even f then f else f + 1)"

text \<open>For \<open>x > 0\<close>, the exponent \<open>e\<close> with \<open>2 powi e \<le> x < 2 powi (e + 1)\<close>.\<close>

definition ilog2 :: "rat \<Rightarrow> int" where
  "ilog2 x = (if 1 \<le> x then bitlen \<lfloor>x\<rfloor> - 1 else - bitlen (\<lceil>1 / x\<rceil> - 1))"

text \<open>The exponent of the binade of a positive \<open>x\<close>, the subnormal range counting as
  the lowest binade.\<close>

definition expo :: "rat \<Rightarrow> int" where
  "expo x = max (ilog2 x) (- 1022)"

text \<open>The spacing of the floats around a positive \<open>x\<close>.\<close>

definition ulp :: "rat \<Rightarrow> rat" where
  "ulp x = 2 powi (expo x - 52)"

definition fl_mag :: "rat \<Rightarrow> float" where
  "fl_mag x = (if x = 0 then 0 else of_int (rne (x / ulp x)) * ulp x)"

definition fl :: "rat \<Rightarrow> float" where
  "fl x = (if x < 0 then - fl_mag (- x) else fl_mag x)"

text \<open>The rationals that are floats.\<close>

definition is_float :: "rat \<Rightarrow> bool" where
  "is_float x \<longleftrightarrow> fl x = x"

text \<open>Half the spacing of the floats from 1 to 2: no rounding of a magnitude below 2 errs
  by more.\<close>

definition eps53 :: rat where
  "eps53 = 1 / 2 ^ 53"

text \<open>\<open>float(n)\<close> of an integer, as in \<open>n * t\<close> and \<open>n + x\<close> with a float operand.\<close>

definition float_of_int :: "int \<Rightarrow> float" where
  "float_of_int n = fl (of_int n)"

text \<open>\<open>int(x)\<close> of a float: truncation towards zero.\<close>

definition py_int :: "float \<Rightarrow> int" where
  "py_int x = (if 0 \<le> x then \<lfloor>x\<rfloor> else \<lceil>x\<rceil>)"

section \<open>The overlay window (class OverlayWindow)\<close>

text \<open>
  The calls the overlay makes on the Tk root window and the canvas, in order.
  \<open>DrawFace t b\<close> is one run of \<open>_draw_face\<close>, which clears the canvas and draws the
  face that \<open>_display_live = t\<close> and \<open>_breathe_t = b\<close> determine.
\<close>

datatype tk_call = Deiconify | Lift | Topmost | Withdraw | DrawFace float float

record overlay =
  visible :: bool
  all_live :: bool
  display_live :: float
  target_live :: float
  breathe_t :: float
  drag_start_x :: int
  drag_start_y :: int
  tk_calls :: "tk_call list"

text \<open>The fields as \<open>__init__\<close> sets them, before the first frame.\<close>

definition init_overlay :: overlay where
  "init_overlay = \<lparr>visible = False, all_live = False, display_live = 0, target_live = 0,
                   breathe_t = 0, drag_start_x = 0, drag_start_y = 0, tk_calls = []\<rparr>"

definition tk :: "tk_call list \<Rightarrow> overlay \<Rightarrow> overlay" where
  "tk cs s = s\<lparr>tk_calls := tk_calls s @ cs\<rparr>"

definition show_overlay :: "overlay \<Rightarrow> overlay" where
  "show_overlay s =
     (if \<not> visible s then tk [Deiconify, Lift, Topmost] (s\<lparr>visible := True\<rparr>) else s)"

definition hide :: "overlay \<Rightarrow> overlay" where
  "hide s = (if visible s then tk [Withdraw] (s\<lparr>visible := False\<rparr>) else s)"

definition set_state :: "bool \<Rightarrow> overlay \<Rightarrow> overlay" where
  "set_state b s = s\<lparr>all_live := b, target_live := (if b then 1 else 0)\<rparr>"

definition ANIM_FPS :: int where
  "ANIM_FPS = 30"

text \<open>\<open>dt = 1.0 / self.ANIM_FPS\<close>\<close>

definition dt :: float where
  "dt = fl (1 / float_of_int ANIM_FPS)"

definition fade_speed :: float where
  "fade_speed = 3"

text \<open>\<open>step = fade_speed * dt\<close>\<close>

definition step :: float where
  "step = fl (fade_speed * dt)"

text \<open>The new \<open>_display_live\<close> of one frame, from the old one and \<open>_target_live\<close>.\<close>

definition chase :: "float \<Rightarrow> float \<Rightarrow> float" where
  "chase target display =
     (let diff = fl (target - display)
      in if \<bar>diff\<bar> < step then target
         else fl (display + (if 0 < diff then step else - step)))"

text \<open>The number of frames the chase is said to need at most: the distance to the
  target over the step, rounded up.\<close>

definition frame_bound :: "float \<Rightarrow> float \<Rightarrow> nat" where
  "frame_bound target display = nat \<lceil>\<bar>target - display\<bar> / step\<rceil>"

text \<open>One frame, \<open>_animate\<close>; the timer then runs it again.\<close>

definition animate :: "overlay \<Rightarrow> overlay" where
  "animate s =
     (let s1 = s\<lparr>display_live := chase (target_live s) (display_live s)\<rparr>;
          s2 = s1\<lparr>breathe_t := fl (breathe_t s1 + dt)\<rparr>
      in if visible s2 then tk [DrawFace (display_live s2) (breathe_t s2)] s2 else s2)"

text \<open>What can happen to the overlay, and a history of it.\<close>

datatype ov_action = Animate | Show | Hide | SetState bool

fun ov_step :: "ov_action \<Rightarrow> overlay \<Rightarrow> overlay" where
  "ov_step Animate s = animate s"
| "ov_step Show s = show_overlay s"
| "ov_step Hide s = hide s"
| "ov_step (SetState b) s = set_state b s"

definition run_overlay :: "ov_action list \<Rightarrow> overlay \<Rightarrow> overlay" where
  "run_overlay acts s = fold ov_step acts s"

text \<open>The overlay once the first live state has been set.\<close>

definition live_overlay :: overlay where
  "live_overlay = set_state True init_overlay"

subsection \<open>Colour interpolation\<close>

definition hexval :: "char \<Rightarrow> nat option" where
  "hexval c =
     (let n = (of_char c :: nat)
      in if 48 \<le> n \<and> n \<le> 57 then Some (n - 48)
         else if 97 \<le> n \<and> n \<le> 102 then Some (n - 87)
         else if 65 \<le> n \<and> n \<le> 70 then Some (n - 55)
         else None)"

fun parse_hex :: "string \<Rightarrow> nat \<Rightarrow> nat option" where
  "parse_hex [] acc = Some acc"
| "parse_hex (c # cs) acc =
     (case hexval c of None \<Rightarrow> None | Some d \<Rightarrow> parse_hex cs (16 * acc + d))"

text \<open>
  \<open>int(s, 16)\<close> on a string of hexadecimal digits; \<open>None\<close> is \<open>ValueError\<close>. Python
  also accepts a sign, surrounding whitespace, underscores between digits and a
  \<open>0x\<close> prefix; such strings are not colour channels and are outside this model.
\<close>

definition int16 :: "string \<Rightarrow> int option" where
  "int16 s = (if s = [] then None else map_option int (parse_hex s 0))"

text \<open>The slice \<open>c[i:j]\<close> for \<open>0 \<le> i \<le> j\<close>.\<close>

definition slice :: "nat \<Rightarrow> nat \<Rightarrow> string \<Rightarrow> string" where
  "slice i j c = take (j - i) (drop i c)"

text \<open>The digit of a value below sixteen: \<open>0\<close> to \<open>9\<close>, then \<open>a\<close> to \<open>f\<close>.\<close>

definition hexdigit :: "nat \<Rightarrow> char" where
  "hexdigit d = (if d < 10 then char_of (48 + d) else char_of (87 + d))"

fun hex_digits :: "nat \<Rightarrow> string" where
  "hex_digits n =
     (if n < 16 then [hexdigit n] else hex_digits (n div 16) @ [hexdigit (n mod 16)])"

text \<open>The format \<open>{r:02x}\<close>: lowercase hexadecimal, zero-padded to width two, the sign
  counting for the width.\<close>

definition fmt02x :: "int \<Rightarrow> string" where
  "fmt02x r =
     (if r < 0 then CHR ''-'' # hex_digits (nat (- r))
      else (let ds = hex_digits (nat r) in if length ds < 2 then CHR ''0'' # ds else ds))"

text \<open>One channel: \<open>int(r1 + (r2 - r1) * t)\<close>.\<close>

definition lerp_channel :: "int \<Rightarrow> int \<Rightarrow> float \<Rightarrow> int" where
  "lerp_channel a b t = py_int (fl (float_of_int a + fl (float_of_int (b - a) * t)))"

text \<open>The three channels of a colour string, or \<open>None\<close> where \<open>int(..., 16)\<close> raises.\<close>

definition channels :: "string \<Rightarrow> (int \<times> int \<times> int) option" where
  "channels c =
     (case (int16 (slice 1 3 c), int16 (slice 3 5 c), int16 (slice 5 7 c)) of
        (Some r, Some g, Some b) \<Rightarrow> Some (r, g, b)
      | _ \<Rightarrow> None)"

text \<open>\<open>_lerp_colour\<close>; \<open>None\<close> is \<open>ValueError\<close>.\<close>

definition lerp_colour :: "string \<Rightarrow> string \<Rightarrow> float \<Rightarrow> string option" where
  "lerp_colour c1 c2 t =
     (case channels c1 of
        None \<Rightarrow> None
      | Some (r1, g1, b1) \<Rightarrow>
          (case channels c2 of
             None \<Rightarrow> None
           | Some (r2, g2, b2) \<Rightarrow>
               Some (CHR ''#'' # fmt02x (lerp_channel r1 r2 t)
                       @ fmt02x (lerp_channel g1 g2 t)
                       @ fmt02x (lerp_channel b1 b2 t))))"

text \<open>A colour string \<open>#rrggbb\<close>: a hash and six hexadecimal digits of either case.\<close>

definition is_hex_colour :: "string \<Rightarrow> bool" where
  "is_hex_colour c \<longleftrightarrow>
     length c = 7 \<and> hd c = CHR ''#'' \<and> list_all (\<lambda>x. hexval x \<noteq> None) (tl c)"

text \<open>A character, and a string, with the letters \<open>A\<close> to \<open>F\<close> in lower case.\<close>

definition lower1 :: "char \<Rightarrow> char" where
  "lower1 x = (if 65 \<le> (of_char x :: nat) \<and> (of_char x :: nat) \<le> 70
               then char_of ((of_char x :: nat) + 32) else x)"

definition lower_hex :: "string \<Rightarrow> string" where
  "lower_hex c = map lower1 c"

definition PINK :: string where "PINK = ''#FF69B4''"
definition PURPLE :: string where "PURPLE = ''#9B59B6''"

section \<open>The coordinator (class MicBuddyApp)\<close>

text \<open>The callbacks handed to \<open>root.after_idle\<close>, which Tk runs later in the order given.\<close>

datatype callback = CbShow | CbHide | CbUpdateTrayMenu | CbUpdateUi

text \<open>
  The tray menu is kept by what its two status lines say: connected or waiting, live
  or muted. \<open>tk_alive\<close> is false once the root window is destroyed, when
  \<open>after_idle\<close> raises.
\<close>

record app =
  app_all_live :: bool
  app_connected :: bool
  the_overlay :: overlay
  tray_icon :: string
  tray_menu :: "bool \<times> bool"
  idle_queue :: "callback list"
  tk_alive :: bool



text \<open>\<open>_on_state_change\<close>\<close>

definition on_state_change :: "bool \<Rightarrow> app \<Rightarrow> app" where
  "on_state_change b a =
     (let a1 = a\<lparr>app_all_live := b\<rparr>
      in if tk_alive a1 then a1\<lparr>idle_queue := idle_queue a1 @ [CbUpdateUi]\<rparr> else a1)"




section \<open>Properties of the connection manager\<close>

subsection \<open>Classification of inputs\<close>

lemma contains_sublist: "contains k s = sublist k s"
  by (induction s) (simp_all add: sublist_Cons_right)

lemma contains_iff: "contains k s \<longleftrightarrow> (\<exists>ps ss. s = ps @ k @ ss)"
  by (simp add: contains_sublist sublist_def)

lemma mic1_is_mic: "is_mic_input mic1"
  by (simp add: is_mic_input_def MIC_KINDS_def kind_of_def mic1_def)

lemma cam1_not_mic: "\<not> is_mic_input cam1"
  by (simp add: is_mic_input_def MIC_KINDS_def kind_of_def cam1_def)

lemma mic_inputs_ex: "mic_inputs [cam1, mic1] = [mic1]"
  by (simp add: mic_inputs_def mic1_is_mic cam1_not_mic)

lemma name_mic1: "name_of mic1 = JStr ''Mic1''"
  by (simp add: name_of_def mic1_def)

text \<open>
  C9. An input is classified as a microphone iff its kind string contains one of the six
  markers as a substring, where the kind string of an input is the string stored under
  \<open>inputKind\<close>; an input whose \<open>inputKind\<close> is absent or null has the empty
  kind and is never a microphone. Put on the raw field: an input is a microphone iff
  \<open>inputKind\<close> holds a string that contains one of the six markers.
\<close>

theorem mic_classification:
  "(is_mic_input inp \<longleftrightarrow>
      (\<exists>k \<in> {''wasapi_input'', ''pulse_input'', ''coreaudio_input'',
              ''alsa_input'', ''jack_input'', ''audio_input''}.
         \<exists>ps ss. kind_of inp = ps @ k @ ss))
   \<and> (inp ''inputKind'' = None \<or> inp ''inputKind'' = Some JNull \<longrightarrow>
        kind_of inp = '''' \<and> \<not> is_mic_input inp)
   \<and> (\<forall>s. inp ''inputKind'' = Some (JStr s) \<longrightarrow> kind_of inp = s)
   \<and> (is_mic_input inp \<longleftrightarrow>
        (\<exists>s. inp ''inputKind'' = Some (JStr s) \<and>
           (\<exists>k \<in> {''wasapi_input'', ''pulse_input'', ''coreaudio_input'',
                   ''alsa_input'', ''jack_input'', ''audio_input''}.
              \<exists>ps ss. s = ps @ k @ ss)))"
proof -
  let ?K = "{''wasapi_input'', ''pulse_input'', ''coreaudio_input'',
             ''alsa_input'', ''jack_input'', ''audio_input''}"
  have A: "is_mic_input inp \<longleftrightarrow> (\<exists>k \<in> ?K. \<exists>ps ss. kind_of inp = ps @ k @ ss)"
    unfolding is_mic_input_def MIC_KINDS_def list_ex_iff contains_iff by simp
  have E: "\<not> (\<exists>k \<in> ?K. \<exists>ps ss. '''' = ps @ k @ ss)" by auto
  have S: "kind_of inp = s" if "inp ''inputKind'' = Some (JStr s)" for s
    using that by (simp add: kind_of_def)
  have N: "kind_of inp = ''''" if "inp ''inputKind'' = None \<or> inp ''inputKind'' = Some JNull"
    using that by (auto simp: kind_of_def)
  have B: "inp ''inputKind'' = None \<or> inp ''inputKind'' = Some JNull \<longrightarrow>
        kind_of inp = '''' \<and> \<not> is_mic_input inp"
    using N A E by metis
  have C: "\<forall>s. inp ''inputKind'' = Some (JStr s) \<longrightarrow> kind_of inp = s"
    using S by blast
  have D: "is_mic_input inp \<longleftrightarrow>
        (\<exists>s. inp ''inputKind'' = Some (JStr s) \<and> (\<exists>k \<in> ?K. \<exists>ps ss. s = ps @ k @ ss))"
  proof (cases "inp ''inputKind''")
    case None
    then show ?thesis using B by simp
  next
    case (Some v)
    show ?thesis
    proof (cases v)
      case JNull
      then show ?thesis using Some B by simp
    next
      case (JStr s)
      then have "kind_of inp = s" using Some S by simp
      then show ?thesis using A Some JStr by simp
    qed
  qed
  from A B C D show ?thesis by blast
qed

theorem mic_classification_witness:
  "is_mic_input mic1 \<and> kind_of mic1 = ''wasapi_input_capture''
   \<and> \<not> is_mic_input cam1 \<and> kind_of cam1 = ''dshow_input''
   \<and> kind_of [''inputKind'' \<mapsto> JNull] = '''' \<and> \<not> is_mic_input [''inputKind'' \<mapsto> JNull]"
proof -
  let ?K = "{''wasapi_input'', ''pulse_input'', ''coreaudio_input'',
             ''alsa_input'', ''jack_input'', ''audio_input''}"
  have m: "mic1 ''inputKind'' = Some (JStr ''wasapi_input_capture'')" by (simp add: mic1_def)
  have c: "cam1 ''inputKind'' = Some (JStr ''dshow_input'')" by (simp add: cam1_def)
  have "\<exists>s. mic1 ''inputKind'' = Some (JStr s) \<and> (\<exists>k \<in> ?K. \<exists>ps ss. s = ps @ k @ ss)"
    apply (rule exI [of _ "''wasapi_input_capture''"])
    apply (rule conjI)
     apply (rule m)
    apply (rule bexI [of _ "''wasapi_input''"])
     apply (rule exI [of _ "[]"])
     apply (rule exI [of _ "''_capture''"])
     apply simp
    apply simp
    done
  then have 1: "is_mic_input mic1"
    by (rule mic_classification [of mic1, THEN conjunct2, THEN conjunct2, THEN conjunct2, THEN iffD2])
  have 2: "kind_of mic1 = ''wasapi_input_capture''"
    using m
    by (rule mic_classification [of mic1, THEN conjunct2, THEN conjunct2, THEN conjunct1,
          rule_format])
  have 4: "kind_of cam1 = ''dshow_input''"
    using c
    by (rule mic_classification [of cam1, THEN conjunct2, THEN conjunct2, THEN conjunct1,
          rule_format])
  have 3: "\<not> is_mic_input cam1" by (rule cam1_not_mic)
  have 5: "kind_of [''inputKind'' \<mapsto> JNull] = '''' \<and> \<not> is_mic_input [''inputKind'' \<mapsto> JNull]"
    using mic_classification [of "[''inputKind'' \<mapsto> JNull]"] by simp
  from 1 2 3 4 5 show ?thesis by simp
qed

subsection \<open>Poll and aggregate\<close>

lemma mics_all_live_iff:
  "mics_all_live mute xs \<longleftrightarrow> (\<forall>inp \<in> set xs. mute (name_of inp) = Reply False)"
  by (induction xs) (auto split: reply.splits)

lemma mics_all_live_raises:
  "inp \<in> set xs \<Longrightarrow> mute (name_of inp) = Raises \<Longrightarrow> \<not> mics_all_live mute xs"
  by (simp add: mics_all_live_iff) force



lemma poll_live: "ws s = Some h \<Longrightarrow> poll_mute env_live c s = (Some True, s)"
  by (simp add: poll_mute_def env_live_def mic_inputs_ex name_mic1)

lemma poll_mute_fault: "ws s = Some h \<Longrightarrow> poll_mute env_mute_fault c s = (Some False, s)"
  by (simp add: poll_mute_def env_mute_fault_def mic_inputs_ex name_mic1)

lemma poll_list_fault:
  "ws s = Some h \<Longrightarrow> poll_mute env_list_fault c s = (None, disconnect c s)"
  by (simp add: poll_mute_def env_list_fault_def)

lemma trace_poll_prefix: "prefix (trace s) (trace (snd (poll_mute e c s)))"
  by (simp add: poll_mute_def disconnect_def emit_def Let_def
      split: option.splits reply.splits)



text \<open>
  C1, as stated, fails: a mute request that raises does not fail the poll. With one
  microphone input whose mute request raises, the poll returns the aggregate value
  false with the session untouched, and the pass of the loop emits that value and no
  connectivity signal.
\<close>

theorem mute_query_fault_counterexample:
  "poll_mute env_mute_fault True session0 = (Some False, session0)
   \<and> tick (up_with env_mute_fault) (True, session0)
       = (True, session0\<lparr>trace := [Open 0, OnConn True, OnState False]\<rparr>)"
  by (simp add: tick_def up_with_def poll_mute_fault session0_def emit_def)

text \<open>
  C1, amended. With a session open and the input list answered, if the mute request of
  any microphone input raises (at any position of any list), that input counts as
  muted: the poll returns false and leaves the session as it is, and a pass of the loop
  that runs this poll while connected emits the aggregate value false and nothing else.
\<close>

theorem mute_query_fault_is_muted:
  assumes "ws s = Some h" and "get_input_list e = Reply r" and "inputs r = Some xs"
    and "inp \<in> set (mic_inputs xs)" and "get_input_mute e (name_of inp) = Raises"
  shows "poll_mute e c s = (Some False, s)
       \<and> (connected s \<and> obs_up i \<and> env i = e \<longrightarrow>
            tick i (w, s) = (True, s\<lparr>trace := trace s @ [OnState False]\<rparr>))"
proof -
  have ne: "mic_inputs xs \<noteq> []" using assms(4) by auto
  have "\<not> mics_all_live (get_input_mute e) (mic_inputs xs)"
    using assms(4,5) by (rule mics_all_live_raises)
  then have p: "poll_mute e c s = (Some False, s)" for c
    using assms(1-3) ne by (simp add: poll_mute_def)
  show ?thesis
    using p by (simp add: tick_def emit_def)
qed

theorem mute_query_fault_is_muted_witness:
  "poll_mute env_mute_fault False session0 = (Some False, session0)"
proof -
  have 1: "ws session0 = Some 0" by (simp add: session0_def)
  have 2: "get_input_list env_mute_fault = Reply \<lparr>inputs = Some [cam1, mic1]\<rparr>"
    by (simp add: env_mute_fault_def)
  have 3: "inputs \<lparr>inputs = Some [cam1, mic1]\<rparr> = Some [cam1, mic1]" by simp
  have 4: "mic1 \<in> set (mic_inputs [cam1, mic1])" by (simp add: mic_inputs_ex)
  have 5: "get_input_mute env_mute_fault (name_of mic1) = Raises"
    by (simp add: env_mute_fault_def)
  from mute_query_fault_is_muted [OF 1 2 3 4 5] show ?thesis by (rule conjunct1)
qed

subsection \<open>Transport faults\<close>

text \<open>
  C4. When the input-list request raises during the poll of a pass that starts
  connected with the host present, the session is torn down (handle cleared, socket
  closed), connectivity=false is emitted once, as the last step of the teardown, and no
  aggregate value is emitted in that pass; on the next pass with the host present the
  manager opens a new session.
\<close>

theorem transport_fault_teardown:
  assumes "ws s = Some h" and "connected s" and "obs_up i"
    and "get_input_list (env i) = Raises"
  shows "tick i (w, s) =
           (True, s\<lparr>connected := False, ws := None,
                    trace := trace s @ [Close h (close_ok i), OnConn False]\<rparr>)
       \<and> (obs_up j \<and> obsws_present j \<and> hs_first j \<longrightarrow>
            prefix (trace s @ [Close h (close_ok i), OnConn False,
                               Open (next_handle s), OnConn True])
                   (trace (snd (tick j (tick i (w, s))))))"
proof -
  let ?s' = "s\<lparr>connected := False, ws := None,
                trace := trace s @ [Close h (close_ok i), OnConn False]\<rparr>"
  have t: "tick i (w, s) = (True, ?s')"
    using assms by (simp add: tick_def poll_mute_def disconnect_def emit_def)
  show ?thesis
  proof (intro conjI impI)
    show "tick i (w, s) = (True, ?s')" by (rule t)
    assume j: "obs_up j \<and> obsws_present j \<and> hs_first j"
    let ?c = "connect True True ?s'"
    have c: "trace ?c = trace s @ [Close h (close_ok i), OnConn False,
                                   Open (next_handle s), OnConn True]"
      "connected ?c"
      by (simp_all add: connect_def emit_def)
    obtain r s'' where p: "poll_mute (env j) (close_ok j) ?c = (r, s'')"
      by (cases "poll_mute (env j) (close_ok j) ?c")
    have pre: "prefix (trace ?c) (trace s'')"
      using trace_poll_prefix [of ?c "env j" "close_ok j"] p by simp
    have "snd (tick j (True, ?s')) = (case r of None \<Rightarrow> s'' | Some b \<Rightarrow> emit (OnState b) s'')"
      using j c(2) p by (simp add: tick_def)
    then have "prefix (trace ?c) (trace (snd (tick j (True, ?s'))))"
      using pre by (cases r) (simp_all add: emit_def)
    then show "prefix (trace s @ [Close h (close_ok i), OnConn False,
                                  Open (next_handle s), OnConn True])
                      (trace (snd (tick j (tick i (w, s)))))"
      using t c(1) by simp
  qed
qed

theorem transport_fault_teardown_witness:
  "tick (up_with env_list_fault) (True, session0) =
     (True, \<lparr>ws = None, connected = False, running = True, next_handle = 1,
             trace = [Open 0, OnConn True, Close 0 True, OnConn False]\<rparr>)"
proof -
  have 1: "ws session0 = Some 0" and 2: "connected session0"
    by (simp_all add: session0_def)
  have 3: "obs_up (up_with env_list_fault)" by (simp add: up_with_def)
  have 4: "get_input_list (env (up_with env_list_fault)) = Raises"
    by (simp add: up_with_def env_list_fault_def)
  from transport_fault_teardown [OF 1 2 3 4, of True]
  have "tick (up_with env_list_fault) (True, session0) =
           (True, session0\<lparr>connected := False, ws := None,
              trace := trace session0 @
                [Close 0 (close_ok (up_with env_list_fault)), OnConn False]\<rparr>)"
    by (rule conjunct1)
  then show ?thesis by (simp add: session0_def up_with_def)
qed

subsection \<open>At most one session\<close>

lemma held_snoc: "held (tr @ [e]) = held_step (held tr) e"
  by (simp add: held_def)

lemma held_Nil: "held [] = []"
  by (simp add: held_def)

lemma mgr_inv_init: "mgr_inv init_mgr"
  by (simp add: mgr_inv_def init_mgr_def held_Nil)

lemma mgr_inv_emit_conn: "mgr_inv s \<Longrightarrow> mgr_inv (emit (OnConn b) s)"
  unfolding mgr_inv_def emit_def by (auto simp: prefix_snoc held_snoc)

lemma mgr_inv_emit_state: "mgr_inv s \<Longrightarrow> mgr_inv (emit (OnState b) s)"
  unfolding mgr_inv_def emit_def by (auto simp: prefix_snoc held_snoc)

lemma mgr_inv_emit_open:
  assumes "mgr_inv s" and "ws s = None"
  shows "mgr_inv (emit (Open n) (s\<lparr>ws := Some n, connected := True, next_handle := k\<rparr>))"
  using assms unfolding mgr_inv_def emit_def by (auto simp: prefix_snoc held_snoc)

lemma mgr_inv_emit_close:
  assumes "mgr_inv s" and "ws s = Some h"
  shows "mgr_inv (emit (Close h c) (s\<lparr>connected := False, ws := None\<rparr>))"
  using assms unfolding mgr_inv_def emit_def by (auto simp: prefix_snoc held_snoc)

lemma mgr_inv_connect:
  assumes "mgr_inv s" and "\<not> connected s"
  shows "mgr_inv (connect p hs s)"
proof -
  from assms have n: "ws s = None" by (simp add: mgr_inv_def)
  have f: "mgr_inv (s\<lparr>ws := None, connected := False\<rparr>)"
    using assms n by (simp add: mgr_inv_def)
  show ?thesis
    unfolding connect_def
    using assms(1) f by (simp add: mgr_inv_emit_conn mgr_inv_emit_open [OF assms(1) n])
qed

lemma mgr_inv_disconnect:
  assumes "mgr_inv s"
  shows "mgr_inv (disconnect c s)"
proof (cases "ws s")
  case None
  then have "mgr_inv (s\<lparr>connected := False, ws := None\<rparr>)"
    using assms by (simp add: mgr_inv_def)
  then show ?thesis using None by (simp add: disconnect_def mgr_inv_emit_conn)
next
  case (Some h)
  then show ?thesis
    by (simp add: disconnect_def mgr_inv_emit_conn mgr_inv_emit_close [OF assms Some])
qed

lemma mgr_inv_poll:
  assumes "mgr_inv s"
  shows "mgr_inv (snd (poll_mute e c s))"
  using assms mgr_inv_disconnect [OF assms, of c]
  by (simp add: poll_mute_def Let_def split: option.splits reply.splits)

lemma mgr_inv_tick:
  assumes "mgr_inv (snd st)"
  shows "mgr_inv (snd (tick i st))"
proof -
  define s where "s = snd st"
  define s1 where "s1 =
    (if obs_up i \<and> \<not> connected s then connect (obsws_present i) (hs_first i) s
     else if \<not> obs_up i \<and> connected s then disconnect (close_ok i) s
     else s)"
  define s2 where "s2 = (if \<not> obs_up i \<and> fst st then emit (OnConn False) s1 else s1)"
  define s3 where "s3 =
    (if obs_up i \<and> \<not> fst st then
       (if \<not> connected s2 then connect (obsws_present i) (hs_second i) s2 else s2)
     else s2)"
  define s4 where "s4 =
    (if connected s3 then
       (case poll_mute (env i) (close_ok i) s3 of
          (None, s') \<Rightarrow> s'
        | (Some r, s') \<Rightarrow> emit (OnState r) s')
     else s3)"
  have t: "snd (tick i st) = s4"
    by (simp add: tick_def Let_def s4_def s3_def s2_def s1_def s_def)
  have 0: "mgr_inv s" using assms by (simp add: s_def)
  have 1: "mgr_inv s1"
    unfolding s1_def using 0 by (simp add: mgr_inv_connect mgr_inv_disconnect)
  have 2: "mgr_inv s2"
    unfolding s2_def using 1 by (simp add: mgr_inv_emit_conn)
  have 3: "mgr_inv s3"
    unfolding s3_def using 2 by (simp add: mgr_inv_connect)
  have 4: "mgr_inv s4"
  proof (cases "connected s3")
    case False
    then show ?thesis using 3 by (simp add: s4_def)
  next
    case True
    obtain r s' where p: "poll_mute (env i) (close_ok i) s3 = (r, s')"
      by (cases "poll_mute (env i) (close_ok i) s3")
    have "mgr_inv s'" using mgr_inv_poll [OF 3, of "env i" "close_ok i"] p by simp
    then show ?thesis using True p
      by (cases r) (simp_all add: s4_def mgr_inv_emit_state)
  qed
  show ?thesis using t 4 by simp
qed

lemma mgr_inv_loop: "mgr_inv (snd st) \<Longrightarrow> mgr_inv (snd (loop ins st))"
  by (induction ins st rule: loop.induct) (simp_all add: mgr_inv_tick)

text \<open>
  C8. In every state the loop reaches from the initial state, whatever the host's
  presence, the handshakes and the polls do in each pass: at every point of the history
  at most one session is open and not yet closed; a session is opened only at a point
  where none is held; the handle the manager holds is exactly the session still open;
  and the manager counts itself connected exactly when it holds a handle.
\<close>

theorem single_connection:
  assumes "loop ins (False, init_mgr) = (w, s)"
  shows "(\<forall>p. prefix p (trace s) \<longrightarrow> length (held p) \<le> 1)
       \<and> (\<forall>p h. prefix (p @ [Open h]) (trace s) \<longrightarrow> held p = [])
       \<and> held (trace s) = (case ws s of None \<Rightarrow> [] | Some h \<Rightarrow> [h])
       \<and> (connected s \<longleftrightarrow> ws s \<noteq> None)"
proof -
  have "mgr_inv (snd (loop ins (False, init_mgr)))"
    by (rule mgr_inv_loop) (simp add: mgr_inv_init)
  then show ?thesis using assms by (simp add: mgr_inv_def)
qed

theorem single_connection_witness:
  "held (trace (snd (loop [up_with env_live, up_with env_list_fault, up_with env_live]
                       (False, init_mgr)))) = [1]"
  using single_connection
    [of "[up_with env_live, up_with env_list_fault, up_with env_live]"
      "fst (loop [up_with env_live, up_with env_list_fault, up_with env_live]
              (False, init_mgr))"
      "snd (loop [up_with env_live, up_with env_list_fault, up_with env_live]
              (False, init_mgr))"]
  by (simp add: tick_def up_with_def init_mgr_def connect_def disconnect_def emit_def
      poll_live poll_list_fault)

section \<open>Properties of the overlay and the coordinator\<close>

subsection \<open>Setting the state\<close>

text \<open>
  C5. \<open>set_state\<close> stores the flag and snaps the target level to 1 when live and to 0
  when muted; the breathe phase, the display level, the visibility, the drag origin,
  the calls made on the window and every other field stay as they were, for every
  state and either flag.
\<close>

theorem set_state_frame:
  "all_live (set_state b s) = b
   \<and> target_live (set_state b s) = (if b then 1 else 0)
   \<and> breathe_t (set_state b s) = breathe_t s
   \<and> display_live (set_state b s) = display_live s
   \<and> visible (set_state b s) = visible s
   \<and> drag_start_x (set_state b s) = drag_start_x s
   \<and> drag_start_y (set_state b s) = drag_start_y s
   \<and> tk_calls (set_state b s) = tk_calls s
   \<and> overlay.more (set_state b s) = overlay.more s"
  by (simp add: set_state_def)

theorem set_state_frame_witness:
  "set_state True init_overlay = init_overlay\<lparr>all_live := True, target_live := 1\<rparr>"
  using set_state_frame [of True init_overlay]
  by (simp add: set_state_def)

subsection \<open>The breathe phase\<close>

lemma breathe_show: "breathe_t (show_overlay s) = breathe_t s"
  by (simp add: show_overlay_def tk_def)

lemma breathe_hide: "breathe_t (hide s) = breathe_t s"
  by (simp add: hide_def tk_def)

lemma breathe_set_state: "breathe_t (set_state b s) = breathe_t s"
  by (simp add: set_state_def)

lemma breathe_animate: "breathe_t (animate s) = fl (breathe_t s + dt)"
  by (simp add: animate_def tk_def Let_def)

lemma advance_swap:
  "((\<lambda>b. fl (b + dt)) ^^ n) (fl (x + dt)) = fl (((\<lambda>b. fl (b + dt)) ^^ n) x + dt)"
  using funpow_swap1 [of "\<lambda>b. fl (b + dt)" n x] by simp

lemma breathe_run:
  "breathe_t (run_overlay acts s)
   = ((\<lambda>b. fl (b + dt)) ^^ count_list acts Animate) (breathe_t s)"
proof (induction acts arbitrary: s)
  case Nil
  then show ?case by (simp add: run_overlay_def)
next
  case (Cons a acts)
  have r: "run_overlay (a # acts) s = run_overlay acts (ov_step a s)"
    by (simp add: run_overlay_def)
  show ?case
  proof (cases a)
    case Animate
    then show ?thesis unfolding r Cons.IH
      by (simp add: breathe_animate advance_swap)
  next
    case Show
    then show ?thesis unfolding r Cons.IH by (simp add: breathe_show)
  next
    case Hide
    then show ?thesis unfolding r Cons.IH by (simp add: breathe_hide)
  next
    case (SetState b)
    then show ?thesis unfolding r Cons.IH by (simp add: breathe_set_state)
  qed
qed

text \<open>
  C6. Every frame advances the breathe phase by \<open>dt\<close> (a float addition), visible or
  not. So two histories of the overlay that run the same number of frames from the
  same phase end with the same phase, however shows, hides (and changes of state) are
  interleaved and whatever the visibility at the start: the phase after \<open>N\<close> frames is
  \<open>N\<close> float additions of \<open>dt\<close> to the initial phase.
\<close>

theorem breathe_phase_ignores_visibility:
  assumes "count_list xs Animate = count_list ys Animate"
    and "breathe_t s = breathe_t s'"
  shows "breathe_t (run_overlay xs s) = breathe_t (run_overlay ys s')
       \<and> breathe_t (run_overlay xs s)
           = ((\<lambda>b. fl (b + dt)) ^^ count_list xs Animate) (breathe_t s)
       \<and> breathe_t (animate s) = fl (breathe_t s + dt)"
  using assms by (simp add: breathe_run breathe_animate)

theorem breathe_phase_ignores_visibility_witness:
  "breathe_t (run_overlay [Show, Animate, Hide, Animate, Show] init_overlay)
   = breathe_t (run_overlay [Animate, Animate] init_overlay)"
proof -
  have c: "count_list [Show, Animate, Hide, Animate, Show] Animate
           = count_list [Animate, Animate] Animate"
    by simp
  from breathe_phase_ignores_visibility [OF c refl, of init_overlay]
  show ?thesis by (rule conjunct1)
qed

subsection \<open>Connectivity signals\<close>























section \<open>Properties of float rounding\<close>

subsection \<open>Rounding to the nearest integer\<close>

lemma rne_of_int: "rne (of_int n) = n"
  by (simp add: rne_def)

lemma rne_mono: "x \<le> y \<Longrightarrow> rne x \<le> rne y"
proof -
  assume xy: "x \<le> y"
  have fx: "\<lfloor>x\<rfloor> \<le> \<lfloor>y\<rfloor>" using xy by (rule floor_mono)
  show ?thesis
  proof (cases "\<lfloor>x\<rfloor> = \<lfloor>y\<rfloor>")
    case True
    then have "x - of_int \<lfloor>x\<rfloor> \<le> y - of_int \<lfloor>y\<rfloor>" using xy by simp
    then show ?thesis using True by (auto simp: rne_def Let_def)
  next
    case False
    then have "\<lfloor>x\<rfloor> + 1 \<le> \<lfloor>y\<rfloor>" using fx by simp
    moreover have "rne x \<le> \<lfloor>x\<rfloor> + 1" by (auto simp: rne_def Let_def)
    moreover have "\<lfloor>y\<rfloor> \<le> rne y" by (auto simp: rne_def Let_def)
    ultimately show ?thesis by linarith
  qed
qed

lemma rne_err: "\<bar>of_int (rne x) - x\<bar> \<le> 1 / 2"
proof -
  have "0 \<le> x - of_int \<lfloor>x\<rfloor>" "x - of_int \<lfloor>x\<rfloor> < 1" by linarith+
  then show ?thesis by (auto simp: rne_def Let_def abs_le_iff) 
qed

lemma rne_ge: "of_int n \<le> x \<Longrightarrow> n \<le> rne x"
  using rne_mono [of "of_int n" x] by (simp add: rne_of_int)

lemma rne_le: "x \<le> of_int n \<Longrightarrow> rne x \<le> n"
  using rne_mono [of x "of_int n"] by (simp add: rne_of_int)

subsection \<open>Binades\<close>

lemma pow2_pos: "0 < (2::rat) powi e"
  by (simp add: zero_less_power_int)

lemma pow2_mono: "a \<le> b \<Longrightarrow> (2::rat) powi a \<le> 2 powi b"
  by (rule power_int_increasing) simp_all

lemma pow2_strict_mono: "a < b \<Longrightarrow> (2::rat) powi a < 2 powi b"
  by (rule power_int_strict_increasing) simp_all

lemma pow2_less_iff: "(2::rat) powi a < 2 powi b \<longleftrightarrow> a < b"
  by (metis pow2_mono pow2_strict_mono not_less)

lemma pow2_le_iff: "(2::rat) powi a \<le> 2 powi b \<longleftrightarrow> a \<le> b"
  by (metis pow2_mono pow2_strict_mono not_less)

lemma pow2_add: "(2::rat) powi (a + b) = 2 powi a * 2 powi b"
  by (rule power_int_add) simp

lemma pow2_diff: "(2::rat) powi (a - b) = 2 powi a / 2 powi b"
  by (rule power_int_diff) simp

lemma pow2_succ: "(2::rat) powi (a + 1) = 2 * 2 powi a"
  by (simp add: pow2_add)

lemma pow2_53_mult: "2 ^ 53 * 2 powi (e - 52) = (2::rat) powi (e + 1)"
proof -
  have "e + 1 = 53 + (e - 52)" by simp
  then have "(2::rat) powi (e + 1) = 2 powi (53 + (e - 52))" by (rule arg_cong)
  also have "\<dots> = 2 powi 53 * 2 powi (e - 52)" by (rule pow2_add)
  finally show ?thesis by simp
qed

lemma pow2_52_mult: "2 ^ 52 * 2 powi (e - 52) = (2::rat) powi e"
proof -
  have "(2::rat) powi e = 2 powi (52 + (e - 52))" by simp
  also have "\<dots> = 2 powi 52 * 2 powi (e - 52)" by (rule pow2_add)
  finally show ?thesis by simp
qed

lemma ilog2_bounds:
  assumes "0 < x"
  shows "2 powi ilog2 x \<le> x \<and> x < 2 powi (ilog2 x + 1)"
proof (cases "1 \<le> x")
  case True
  define n where "n = \<lfloor>x\<rfloor>"
  have n: "0 < n" using True by (simp add: n_def)
  have b: "1 \<le> bitlen n" using n by (simp add: bitlen_alt_def)
  from bitlen_bounds [OF n] have lo: "2 ^ nat (bitlen n - 1) \<le> n" and hi: "n < 2 ^ nat (bitlen n)"
    by simp_all
  have e: "ilog2 x = bitlen n - 1" using True by (simp add: ilog2_def n_def)
  have "(2::rat) powi (bitlen n - 1) = of_int (2 ^ nat (bitlen n - 1))"
    using b by (simp add: power_int_def)
  also have "\<dots> \<le> of_int n" using lo by (simp only: of_int_le_iff)
  also have "\<dots> \<le> x" by (simp add: n_def)
  finally have 1: "2 powi ilog2 x \<le> x" by (simp add: e)
  have "n + 1 \<le> 2 ^ nat (bitlen n)" using hi by simp
  then have "(of_int (n + 1) :: rat) \<le> of_int (2 ^ nat (bitlen n))" by (simp only: of_int_le_iff)
  moreover have "x < of_int (n + 1)" unfolding n_def by linarith
  moreover have "(of_int (2 ^ nat (bitlen n)) :: rat) = 2 powi (bitlen n)"
    using b by (simp add: power_int_def)
  ultimately have "x < 2 powi (ilog2 x + 1)" by (simp add: e)
  with 1 show ?thesis by simp
next
  case False
  define y where "y = 1 / x"
  define m where "m = \<lceil>y\<rceil> - 1"
  have y1: "1 < y" using False assms by (simp add: y_def)
  have m: "0 < m" using y1 unfolding m_def by linarith
  have b: "1 \<le> bitlen m" using m by (simp add: bitlen_alt_def)
  from bitlen_bounds [OF m] have lo: "2 ^ nat (bitlen m - 1) \<le> m" and hi: "m < 2 ^ nat (bitlen m)"
    by simp_all
  have e: "ilog2 x = - bitlen m" using False by (simp add: ilog2_def m_def y_def)
  have "y \<le> of_int (m + 1)" unfolding m_def by simp
  also have "\<dots> \<le> of_int (2 ^ nat (bitlen m))" using hi by (simp only: of_int_le_iff)
  also have "\<dots> = 2 powi (bitlen m)" using b by (simp add: power_int_def)
  finally have yhi: "y \<le> 2 powi (bitlen m)" .
  have "(2::rat) powi (bitlen m - 1) = of_int (2 ^ nat (bitlen m - 1))"
    using b by (simp add: power_int_def)
  also have "\<dots> \<le> of_int m" using lo by (simp only: of_int_le_iff)
  also have "\<dots> < y" unfolding m_def by linarith
  finally have ylo: "2 powi (bitlen m - 1) < y" .
  have x: "x = 1 / y" using assms by (simp add: y_def)
  have "(2::rat) powi ilog2 x = 1 / 2 powi (bitlen m)" by (simp add: e power_int_minus_divide)
  also have "\<dots> \<le> 1 / y" using yhi y1 by (simp add: frac_le)
  finally have 1: "2 powi ilog2 x \<le> x" by (simp add: x)
  have "1 / y < 1 / 2 powi (bitlen m - 1)"
    using ylo pow2_pos [of "bitlen m - 1"] by (simp add: frac_less2)
  also have "\<dots> = 2 powi (ilog2 x + 1)"
    by (simp add: e power_int_minus_divide [symmetric])
  finally have "x < 2 powi (ilog2 x + 1)" by (simp add: x)
  with 1 show ?thesis by simp
qed

lemma ilog2_unique:
  assumes "2 powi e \<le> x" and "x < 2 powi (e + 1)"
  shows "ilog2 x = e"
proof -
  have x: "0 < x" using assms(1) pow2_pos [of e] by linarith
  from ilog2_bounds [OF x] have lo: "2 powi ilog2 x \<le> x" and hi: "x < 2 powi (ilog2 x + 1)"
    by simp_all
  have "(2::rat) powi e < 2 powi (ilog2 x + 1)" using assms(1) hi by linarith
  then have 1: "e < ilog2 x + 1" by (simp only: pow2_less_iff)
  have "(2::rat) powi ilog2 x < 2 powi (e + 1)" using assms(2) lo by linarith
  then have 2: "ilog2 x < e + 1" by (simp only: pow2_less_iff)
  from 1 2 show ?thesis by simp
qed

lemma ilog2_mono:
  assumes "0 < x" and "x \<le> y"
  shows "ilog2 x \<le> ilog2 y"
proof -
  have y: "0 < y" using assms by linarith
  have "(2::rat) powi ilog2 x < 2 powi (ilog2 y + 1)"
    using ilog2_bounds [OF assms(1)] ilog2_bounds [OF y] assms(2) by linarith
  then have "ilog2 x < ilog2 y + 1" by (simp only: pow2_less_iff)
  then show ?thesis by simp
qed


subsection \<open>Rounding to the nearest float\<close>

lemma ulp_expo: "ulp x = 2 powi (expo x - 52)"
  by (simp add: ulp_def)

lemma ulp_pos: "0 < ulp x"
  by (simp add: ulp_def pow2_pos)

lemma expo_mono: "0 < x \<Longrightarrow> x \<le> y \<Longrightarrow> expo x \<le> expo y"
  using ilog2_mono [of x y] by (simp add: expo_def)

lemma expo_upper: "0 < x \<Longrightarrow> x < 2 powi (expo x + 1)"
proof -
  assume x: "0 < x"
  have "x < 2 powi (ilog2 x + 1)" using ilog2_bounds [OF x] by simp
  also have "\<dots> \<le> 2 powi (expo x + 1)" by (rule pow2_mono) (simp add: expo_def)
  finally show ?thesis .
qed

lemma expo_lower: "0 < x \<Longrightarrow> - 1022 \<le> ilog2 x \<Longrightarrow> 2 powi expo x \<le> x"
  using ilog2_bounds [of x] by (simp add: expo_def max_def)

lemma fl_mag_pos_def: "0 < x \<Longrightarrow> fl_mag x = of_int (rne (x / ulp x)) * ulp x"
  by (simp add: fl_mag_def)

lemma fl_mag_nonneg: "0 \<le> x \<Longrightarrow> 0 \<le> fl_mag x"
proof (cases "x = 0")
  case True
  then show ?thesis by (simp add: fl_mag_def)
next
  case False
  assume "0 \<le> x"
  then have "0 \<le> x / ulp x" using ulp_pos [of x] by simp
  then have "0 \<le> rne (x / ulp x)" using rne_ge [of 0 "x / ulp x"] by simp
  then show ?thesis using False ulp_pos [of x] by (simp add: fl_mag_def)
qed

lemma fl_mag_upper:
  assumes "0 < x"
  shows "fl_mag x \<le> 2 powi (expo x + 1)"
proof -
  have "x / ulp x \<le> 2 powi (expo x + 1) / ulp x"
    using expo_upper [OF assms] ulp_pos [of x] by (simp add: divide_right_mono)
  also have "\<dots> = 2 powi 53" unfolding ulp_expo by (simp flip: pow2_diff)
  also have "\<dots> = of_int (2 ^ 53)" by simp
  finally have "rne (x / ulp x) \<le> 2 ^ 53" by (rule rne_le)
  then have "(of_int (rne (x / ulp x)) :: rat) \<le> of_int (2 ^ 53)" by (simp only: of_int_le_iff)
  then have "of_int (rne (x / ulp x)) * ulp x \<le> of_int (2 ^ 53) * ulp x"
    using ulp_pos [of x] by (simp only: mult_le_cancel_right_pos)
  also have "\<dots> = 2 powi (expo x + 1)" using pow2_53_mult [of "expo x"] by (simp add: ulp_expo)
  finally show ?thesis using assms by (simp add: fl_mag_pos_def)
qed

lemma fl_mag_lower:
  assumes "0 < x" and "- 1022 \<le> ilog2 x"
  shows "2 powi expo x \<le> fl_mag x"
proof -
  have "2 powi expo x / ulp x \<le> x / ulp x"
    using expo_lower [OF assms] ulp_pos [of x] by (simp add: divide_right_mono)
  moreover have "2 powi expo x / ulp x = 2 powi 52" unfolding ulp_expo by (simp flip: pow2_diff)
  moreover have "(2::rat) powi 52 = of_int (2 ^ 52)" by simp
  ultimately have "of_int (2 ^ 52) \<le> x / ulp x" by simp
  then have "2 ^ 52 \<le> rne (x / ulp x)" by (rule rne_ge)
  then have "(of_int (2 ^ 52) :: rat) \<le> of_int (rne (x / ulp x))" by (simp only: of_int_le_iff)
  then have "of_int (2 ^ 52) * ulp x \<le> of_int (rne (x / ulp x)) * ulp x"
    using ulp_pos [of x] by (simp only: mult_le_cancel_right_pos)
  moreover have "of_int (2 ^ 52) * ulp x = 2 powi (expo x)"
    using pow2_52_mult [of "expo x"] by (simp add: ulp_expo)
  ultimately show ?thesis using assms by (simp add: fl_mag_pos_def)
qed

lemma fl_mag_mono_pos:
  assumes "0 < x" and "x \<le> y"
  shows "fl_mag x \<le> fl_mag y"
proof -
  have y: "0 < y" using assms by linarith
  have e: "expo x \<le> expo y" using assms by (rule expo_mono)
  show ?thesis
  proof (cases "expo x = expo y")
    case True
    then have u: "ulp x = ulp y" by (simp add: ulp_expo)
    have "x / ulp y \<le> y / ulp y" using assms(2) ulp_pos [of y] by (simp add: divide_right_mono)
    then have "rne (x / ulp y) \<le> rne (y / ulp y)" by (rule rne_mono)
    then have "(of_int (rne (x / ulp y)) :: rat) \<le> of_int (rne (y / ulp y))" by (simp only: of_int_le_iff)
    then have "of_int (rne (x / ulp y)) * ulp y \<le> of_int (rne (y / ulp y)) * ulp y"
      using ulp_pos [of y] by (simp only: mult_le_cancel_right_pos)
    then show ?thesis using assms(1) y u by (simp add: fl_mag_pos_def)
  next
    case False
    then have lt: "expo x + 1 \<le> expo y" using e by simp
    then have n: "- 1022 \<le> ilog2 y" by (simp add: expo_def max_def split: if_splits)
    have "fl_mag x \<le> 2 powi (expo x + 1)" using assms(1) by (rule fl_mag_upper)
    also have "\<dots> \<le> 2 powi expo y" using lt by (rule pow2_mono)
    also have "\<dots> \<le> fl_mag y" using y n by (rule fl_mag_lower)
    finally show ?thesis .
  qed
qed

lemma fl_mag_0: "fl_mag 0 = 0"
  by (simp add: fl_mag_def)

lemma fl_mag_mono: "0 \<le> x \<Longrightarrow> x \<le> y \<Longrightarrow> fl_mag x \<le> fl_mag y"
  using fl_mag_mono_pos [of x y] fl_mag_nonneg [of y] by (cases "x = 0") (auto simp: fl_mag_0)

lemma fl_0: "fl 0 = 0"
  by (simp add: fl_def fl_mag_0)

lemma fl_neg: "fl (- x) = - fl x"
  by (cases "x = 0") (auto simp: fl_def fl_mag_0)

lemma fl_nonneg: "0 \<le> x \<Longrightarrow> 0 \<le> fl x"
  by (simp add: fl_def fl_mag_nonneg)

lemma fl_nonpos: "x \<le> 0 \<Longrightarrow> fl x \<le> 0"
  using fl_nonneg [of "- x"] by (simp add: fl_neg)

lemma fl_mono:
  assumes "x \<le> y"
  shows "fl x \<le> fl y"
proof -
  consider "0 \<le> x" | "x < 0" "0 \<le> y" | "y < 0" by linarith
  then show ?thesis
  proof cases
    case 1
    then show ?thesis using assms by (simp add: fl_def fl_mag_mono)
  next
    case 2
    then have "fl x \<le> 0" "0 \<le> fl y" by (simp_all add: fl_nonpos fl_nonneg)
    then show ?thesis by linarith
  next
    case 3
    then have "fl_mag (- y) \<le> fl_mag (- x)" using assms by (intro fl_mag_mono) simp_all
    then show ?thesis using 3 assms by (simp add: fl_def)
  qed
qed


lemma expo_le:
  assumes "0 < x" and "x < 2 powi (j + 1)" and "- 1022 \<le> j"
  shows "expo x \<le> j"
proof -
  have "(2::rat) powi ilog2 x < 2 powi (j + 1)"
    using ilog2_bounds [OF assms(1)] assms(2) by linarith
  then have "ilog2 x < j + 1" by (simp only: pow2_less_iff)
  then show ?thesis using assms(3) by (simp add: expo_def)
qed

lemma expo_pow2: "- 1022 \<le> e \<Longrightarrow> expo (2 powi e) = e"
proof -
  assume e: "- 1022 \<le> e"
  have "ilog2 (2 powi e) = e"
    by (rule ilog2_unique) (simp_all add: pow2_strict_mono)
  then show ?thesis using e by (simp add: expo_def)
qed

lemma expo_ge: "- 1022 \<le> expo x"
  by (simp add: expo_def)

lemma fl_mag_exact:
  assumes "0 < v" and "v = of_int n * 2 powi k" and "expo v - 52 \<le> k"
  shows "fl_mag v = v"
proof -
  define j where "j = nat (k - (expo v - 52))"
  have k: "k = (expo v - 52) + int j" using assms(3) by (simp add: j_def)
  have "(2::rat) powi k = 2 powi (expo v - 52) * 2 powi (int j)"
    unfolding k by (rule pow2_add)
  then have p: "(2::rat) powi k = ulp v * 2 ^ j" by (simp add: ulp_expo)
  have aux: "a * (u * b) / u = a * b" if "0 < u" for a b u :: rat
    using that by simp
  have vv: "v = of_int n * (ulp v * 2 ^ j)" by (rule assms(2) [unfolded p])
  have "v / ulp v = of_int n * (ulp v * 2 ^ j) / ulp v" by (rule arg_cong [OF vv])
  also have "\<dots> = of_int n * 2 ^ j" using ulp_pos [of v] by (rule aux)
  also have "\<dots> = of_int (n * 2 ^ j)" by simp
  finally have "rne (v / ulp v) = n * 2 ^ j" by (simp only: rne_of_int)
  then have "fl_mag v = of_int (n * 2 ^ j) * ulp v" using assms(1) by (simp add: fl_mag_pos_def)
  also have "\<dots> = of_int n * (ulp v * 2 ^ j)" by simp
  also have "\<dots> = v" by (rule vv [symmetric])
  finally show ?thesis .
qed

lemma fl_mag_of_int:
  assumes "0 \<le> n" and "n < 2 ^ 53"
  shows "fl_mag (of_int n) = of_int n"
proof (cases "n = 0")
  case True
  then show ?thesis by (simp add: fl_mag_0)
next
  case False
  then have p: "(0::rat) < of_int n" using assms(1) by simp
  have "(of_int n :: rat) < of_int (2 ^ 53)" using assms(2) by (simp only: of_int_less_iff)
  then have "(of_int n :: rat) < 2 powi (52 + 1)" by simp
  then have "expo (of_int n) \<le> 52" using p by (intro expo_le) simp_all
  then show ?thesis using p by (intro fl_mag_exact [where n = n and k = 0]) simp_all
qed

lemma fl_of_int:
  assumes "\<bar>n\<bar> < 2 ^ 53"
  shows "fl (of_int n) = of_int n"
proof (cases "0 \<le> n")
  case True
  then show ?thesis using assms by (simp add: fl_def fl_mag_of_int)
next
  case False
  then have "fl_mag (of_int (- n)) = of_int (- n)" using assms by (intro fl_mag_of_int) simp_all
  then show ?thesis using False by (simp add: fl_def)
qed

lemma fl_mag_idem:
  assumes "0 \<le> x"
  shows "fl_mag (fl_mag x) = fl_mag x"
proof (cases "fl_mag x = 0")
  case True
  then show ?thesis by (simp add: fl_mag_0)
next
  case False
  then have x: "0 < x" using assms by (cases "x = 0") (auto simp: fl_mag_0)
  define v where "v = fl_mag x"
  have v: "0 < v" using False fl_mag_nonneg [OF assms] by (simp add: v_def)
  have r: "v = of_int (rne (x / ulp x)) * 2 powi (expo x - 52)"
    using x by (simp add: v_def fl_mag_pos_def ulp_expo)
  have u: "v \<le> 2 powi (expo x + 1)" unfolding v_def using x by (rule fl_mag_upper)
  have "fl_mag v = v"
  proof (cases "v = 2 powi (expo x + 1)")
    case True
    have "expo v = expo x + 1" unfolding True using expo_ge [of x] by (intro expo_pow2) simp
    then show ?thesis using v True
      by (intro fl_mag_exact [where n = 1 and k = "expo x + 1"]) simp_all
  next
    case False
    then have "v < 2 powi (expo x + 1)" using u by simp
    then have "expo v \<le> expo x" using v expo_ge [of x] by (intro expo_le) simp_all
    then show ?thesis using v r
      by (intro fl_mag_exact [where n = "rne (x / ulp x)" and k = "expo x - 52"]) simp_all
  qed
  then show ?thesis by (simp add: v_def)
qed

lemma fl_idem: "fl (fl x) = fl x"
proof (cases "0 \<le> x")
  case True
  then have "fl x = fl_mag x" by (simp add: fl_def)
  moreover have "fl (fl_mag x) = fl_mag (fl_mag x)"
    using fl_mag_nonneg [OF True] by (simp add: fl_def)
  ultimately show ?thesis using True by (simp add: fl_mag_idem)
next
  case False
  then have n: "0 \<le> - x" by simp
  have "fl x = - fl_mag (- x)" using False by (simp add: fl_def)
  moreover have "fl (- fl_mag (- x)) = - fl (fl_mag (- x))" by (rule fl_neg)
  moreover have "fl (fl_mag (- x)) = fl_mag (fl_mag (- x))"
    using fl_mag_nonneg [OF n] by (simp add: fl_def)
  ultimately show ?thesis using n by (simp add: fl_mag_idem)
qed

lemma is_float_fl: "is_float (fl x)"
  by (simp add: is_float_def fl_idem)

lemma fl_mag_err:
  assumes "0 < x"
  shows "\<bar>fl_mag x - x\<bar> \<le> ulp x / 2"
proof -
  define a :: rat where "a = of_int (rne (x / ulp x))"
  define u where "u = ulp x"
  have u: "0 < u" by (simp add: u_def ulp_pos)
  have "\<bar>a - x / u\<bar> \<le> 1 / 2" unfolding a_def u_def by (rule rne_err)
  then have "\<bar>a - x / u\<bar> * u \<le> 1 / 2 * u" using u by (simp only: mult_le_cancel_right_pos)
  moreover have "\<bar>a - x / u\<bar> * u = \<bar>(a - x / u) * u\<bar>" using u by (simp add: abs_mult)
  moreover have "(a - x / u) * u = a * u - x" using u by (simp add: left_diff_distrib)
  ultimately have "\<bar>a * u - x\<bar> \<le> u / 2" by simp
  then show ?thesis using assms by (simp add: fl_mag_pos_def a_def u_def)
qed

lemma fl_mag_err_bound:
  assumes "0 \<le> x" and "x < 2 powi (j + 1)" and "- 1022 \<le> j"
  shows "\<bar>fl_mag x - x\<bar> \<le> 2 powi (j - 53)"
proof (cases "x = 0")
  case True
  then show ?thesis using pow2_pos [of "j - 53"] by (simp add: fl_mag_0)
next
  case False
  then have x: "0 < x" using assms(1) by simp
  have "expo x \<le> j" using x assms(2,3) by (rule expo_le)
  then have "ulp x \<le> 2 powi (j - 52)" unfolding ulp_expo by (intro pow2_mono) simp
  moreover have "(2::rat) powi (j - 52) = 2 * 2 powi (j - 53)"
    using pow2_succ [of "j - 53"] by simp
  ultimately have "ulp x / 2 \<le> 2 powi (j - 53)" by simp
  then show ?thesis using fl_mag_err [OF x] by linarith
qed

lemma fl_err_bound:
  assumes "\<bar>x\<bar> < 2 powi (j + 1)" and "- 1022 \<le> j"
  shows "\<bar>fl x - x\<bar> \<le> 2 powi (j - 53)"
proof (cases "x < 0")
  case False
  then show ?thesis using assms fl_mag_err_bound [of x j] by (simp add: fl_def)
next
  case True
  then have "\<bar>fl_mag (- x) - (- x)\<bar> \<le> 2 powi (j - 53)"
    using assms by (intro fl_mag_err_bound) simp_all
  then show ?thesis using True by (simp add: fl_def)
qed

section \<open>Properties of the colour interpolation\<close>

declare hex_digits.simps [simp del]

lemma py_int_between:
  assumes "of_int a \<le> x" and "x \<le> of_int b"
  shows "a \<le> py_int x \<and> py_int x \<le> b"
proof -
  have 1: "a \<le> \<lfloor>x\<rfloor>" using assms(1) by (simp only: le_floor_iff)
  have "(of_int \<lfloor>x\<rfloor> :: rat) \<le> of_int b" using assms(2) of_int_floor_le [of x] by linarith
  then have 2: "\<lfloor>x\<rfloor> \<le> b" by (simp only: of_int_le_iff)
  have "(of_int a :: rat) \<le> of_int \<lceil>x\<rceil>" using assms(1) le_of_int_ceiling [of x] by linarith
  then have 3: "a \<le> \<lceil>x\<rceil>" by (simp only: of_int_le_iff)
  have 4: "\<lceil>x\<rceil> \<le> b" using assms(2) by (simp only: ceiling_le_iff)
  from 1 2 3 4 show ?thesis by (simp add: py_int_def)
qed

lemma py_int_of_int: "py_int (of_int n) = n"
  by (simp add: py_int_def)

lemma float_of_int_exact: "\<bar>n\<bar> < 2 ^ 53 \<Longrightarrow> float_of_int n = of_int n"
  by (simp add: float_of_int_def fl_of_int)

lemma lerp_channel_0:
  assumes "\<bar>a\<bar> < 2 ^ 53"
  shows "lerp_channel a b 0 = a"
  using assms by (simp add: lerp_channel_def fl_0 float_of_int_exact fl_of_int py_int_of_int)

lemma lerp_channel_1:
  assumes "\<bar>a\<bar> < 2 ^ 53" and "\<bar>b\<bar> < 2 ^ 53" and "\<bar>b - a\<bar> < 2 ^ 53"
  shows "lerp_channel a b 1 = b"
proof -
  have "fl (float_of_int (b - a) * 1) = of_int (b - a)"
    using assms(3) by (simp add: float_of_int_exact fl_of_int del: of_int_diff)
  then have "float_of_int a + fl (float_of_int (b - a) * 1) = of_int b"
    using assms(1) by (simp add: float_of_int_exact)
  then show ?thesis using assms(2) by (simp add: lerp_channel_def fl_of_int py_int_of_int)
qed

lemma lerp_channel_between:
  assumes "0 \<le> t" and "t \<le> 1"
    and "\<bar>a\<bar> < 2 ^ 53" and "\<bar>b\<bar> < 2 ^ 53" and "\<bar>b - a\<bar> < 2 ^ 53"
  shows "min a b \<le> lerp_channel a b t \<and> lerp_channel a b t \<le> max a b"
proof -
  define d :: rat where "d = of_int (b - a)"
  have fd: "float_of_int (b - a) = d" using assms(5) by (simp add: d_def float_of_int_exact)
  have fa: "float_of_int a = of_int a" using assms(3) by (rule float_of_int_exact)
  have fld: "fl d = d" unfolding d_def using assms(5) by (rule fl_of_int)
  have fla: "fl (of_int a) = of_int a" using assms(3) by (rule fl_of_int)
  have flb: "fl (of_int b) = of_int b" using assms(4) by (rule fl_of_int)
  have ab: "of_int a + d = (of_int b :: rat)" by (simp add: d_def)
  define m where "m = fl (d * t)"
  define v where "v = fl (of_int a + m)"
  have lc: "lerp_channel a b t = py_int v"
    by (simp add: lerp_channel_def fd fa m_def v_def)
  show ?thesis
  proof (cases "a \<le> b")
    case True
    then have d0: "0 \<le> d" by (simp add: d_def)
    have "0 \<le> d * t" using d0 assms(1) by simp
    then have m0: "0 \<le> m" unfolding m_def by (rule fl_nonneg)
    have "d * t \<le> d" using d0 assms(2) by (simp add: mult_left_le)
    then have "m \<le> fl d" unfolding m_def by (rule fl_mono)
    then have m1: "m \<le> d" by (simp add: fld)
    have "fl (of_int a) \<le> v" unfolding v_def using m0 by (intro fl_mono) simp
    then have v0: "of_int a \<le> v" by (simp add: fla)
    have "v \<le> fl (of_int b)" unfolding v_def using m1 ab by (intro fl_mono) linarith
    then have v1: "v \<le> of_int b" by (simp add: flb)
    from py_int_between [OF v0 v1] show ?thesis using True by (simp add: lc)
  next
    case False
    then have d0: "d \<le> 0" by (simp add: d_def)
    have "d * t \<le> 0" using d0 assms(1) by (simp add: mult_nonpos_nonneg)
    then have m0: "m \<le> 0" unfolding m_def by (rule fl_nonpos)
    have "d * 1 \<le> d * t" using assms(2) d0 by (rule mult_left_mono_neg)
    then have "d \<le> d * t" by simp
    then have "fl d \<le> m" unfolding m_def by (rule fl_mono)
    then have m1: "d \<le> m" by (simp add: fld)
    have "v \<le> fl (of_int a)" unfolding v_def using m0 by (intro fl_mono) simp
    then have v0: "v \<le> of_int a" by (simp add: fla)
    have "fl (of_int b) \<le> v" unfolding v_def using m1 ab by (intro fl_mono) linarith
    then have v1: "of_int b \<le> v" by (simp add: flb)
    from py_int_between [OF v1 v0] show ?thesis using False by (simp add: lc)
  qed
qed

subsection \<open>Hexadecimal digits\<close>


lemma lower_hex_map: "lower_hex c = map lower1 c"
  by (simp add: lower_hex_def)

lemma hexval_lt: "hexval c = Some h \<Longrightarrow> h < 16"
  by (auto simp: hexval_def Let_def split: if_splits)

lemma hexdigit_hexval: "hexval c = Some h \<Longrightarrow> hexdigit h = lower1 c"
  by (auto simp: hexval_def hexdigit_def lower1_def Let_def split: if_splits)

lemma hexval_hexdigit: "d < 16 \<Longrightarrow> hexval (hexdigit d) = Some d"
  by (auto simp: hexval_def hexdigit_def Let_def)

lemma char_of_48: "char_of (48::nat) = CHR ''0''"
  by code_simp

lemma fmt02x_byte:
  assumes "k < 256"
  shows "fmt02x (int k) = [hexdigit (k div 16), hexdigit (k mod 16)]"
proof (cases "k < 16")
  case True
  then have "hex_digits k = [hexdigit k]" by (subst hex_digits.simps) simp
  moreover have "hexdigit (k div 16) = CHR ''0''" using True by (simp add: hexdigit_def char_of_48)
  ultimately show ?thesis using True by (simp add: fmt02x_def)
next
  case False
  have "k div 16 < 16" using assms by simp
  then have "hex_digits (k div 16) = [hexdigit (k div 16)]"
    by (subst hex_digits.simps) simp
  then have "hex_digits k = [hexdigit (k div 16), hexdigit (k mod 16)]"
    using False by (subst hex_digits.simps) simp
  then show ?thesis by (simp add: fmt02x_def)
qed

lemma int16_pair:
  assumes "hexval x = Some h" and "hexval y = Some l"
  shows "int16 [x, y] = Some (int (16 * h + l))"
  using assms by (simp add: int16_def)

lemma fmt02x_int16:
  assumes "hexval x = Some h" and "hexval y = Some l"
  shows "fmt02x (int (16 * h + l)) = [lower1 x, lower1 y]"
proof -
  have h: "h < 16" and l: "l < 16" using assms by (simp_all add: hexval_lt)
  have "fmt02x (int (16 * h + l)) = [hexdigit ((16 * h + l) div 16), hexdigit ((16 * h + l) mod 16)]"
    using h l by (intro fmt02x_byte) simp
  then show ?thesis using l assms by (simp add: hexdigit_hexval)
qed

lemma int16_fmt02x:
  assumes "k < 256"
  shows "int16 (fmt02x (int k)) = Some (int k)"
proof -
  have "k div 16 < 16" "k mod 16 < 16" using assms by simp_all
  then have "int16 [hexdigit (k div 16), hexdigit (k mod 16)]
             = Some (int (16 * (k div 16) + k mod 16))"
    by (intro int16_pair hexval_hexdigit)
  then show ?thesis using assms by (simp add: fmt02x_byte)
qed

lemma hex_colour_shape:
  assumes "is_hex_colour c"
  obtains x1 x2 x3 x4 x5 x6 h1 h2 h3 h4 h5 h6
  where "c = [CHR ''#'', x1, x2, x3, x4, x5, x6]"
    and "hexval x1 = Some h1" and "hexval x2 = Some h2" and "hexval x3 = Some h3"
    and "hexval x4 = Some h4" and "hexval x5 = Some h5" and "hexval x6 = Some h6"
proof -
  from assms have "length c = Suc (Suc (Suc (Suc (Suc (Suc (Suc 0))))))"
    by (simp add: is_hex_colour_def)
  then obtain x0 x1 x2 x3 x4 x5 x6 where c: "c = [x0, x1, x2, x3, x4, x5, x6]"
    by (auto simp: length_Suc_conv)
  from assms c have "x0 = CHR ''#''" and "hexval x1 \<noteq> None" and "hexval x2 \<noteq> None"
    and "hexval x3 \<noteq> None" and "hexval x4 \<noteq> None" and "hexval x5 \<noteq> None"
    and "hexval x6 \<noteq> None"
    by (simp_all add: is_hex_colour_def)
  then show ?thesis using c that by auto
qed

lemma channels_shape:
  assumes "hexval x1 = Some h1" and "hexval x2 = Some h2" and "hexval x3 = Some h3"
    and "hexval x4 = Some h4" and "hexval x5 = Some h5" and "hexval x6 = Some h6"
  shows "channels [CHR ''#'', x1, x2, x3, x4, x5, x6]
         = Some (int (16 * h1 + h2), int (16 * h3 + h4), int (16 * h5 + h6))"
  using int16_pair [OF assms(1,2)] int16_pair [OF assms(3,4)] int16_pair [OF assms(5,6)]
  by (simp add: channels_def slice_def)

lemma lower1_hash: "lower1 CHR ''#'' = CHR ''#''"
  by (simp add: lower1_def)

lemma lower1_hexdigit: "d < 16 \<Longrightarrow> lower1 (hexdigit d) = hexdigit d"
  by (auto simp: lower1_def hexdigit_def)

lemma formatted_colour:
  assumes "kr < 256" and "kg < 256" and "kb < 256"
  defines "c \<equiv> CHR ''#'' # fmt02x (int kr) @ fmt02x (int kg) @ fmt02x (int kb)"
  shows "is_hex_colour c \<and> lower_hex c = c \<and> channels c = Some (int kr, int kg, int kb)"
proof -
  have d: "kr div 16 < 16" "kr mod 16 < 16" "kg div 16 < 16" "kg mod 16 < 16"
    "kb div 16 < 16" "kb mod 16 < 16"
    using assms(1-3) by simp_all
  have c: "c = [CHR ''#'', hexdigit (kr div 16), hexdigit (kr mod 16),
                hexdigit (kg div 16), hexdigit (kg mod 16),
                hexdigit (kb div 16), hexdigit (kb mod 16)]"
    using assms(1-3) by (simp add: c_def fmt02x_byte)
  have 1: "is_hex_colour c" unfolding c using d by (simp add: is_hex_colour_def hexval_hexdigit)
  have 2: "lower_hex c = c"
    unfolding c lower_hex_map using d by (simp add: lower1_hash lower1_hexdigit)
  have "channels c = Some (int (16 * (kr div 16) + kr mod 16), int (16 * (kg div 16) + kg mod 16),
                          int (16 * (kb div 16) + kb mod 16))"
    unfolding c using d by (intro channels_shape hexval_hexdigit)
  then have 3: "channels c = Some (int kr, int kg, int kb)" by simp
  from 1 2 3 show ?thesis by simp
qed

lemma lerp_byte:
  assumes "a < 256" and "b < 256" and "0 \<le> t" and "t \<le> 1"
  obtains k where "k < 256" and "lerp_channel (int a) (int b) t = int k"
    and "min (int a) (int b) \<le> int k" and "int k \<le> max (int a) (int b)"
proof -
  have "min (int a) (int b) \<le> lerp_channel (int a) (int b) t
        \<and> lerp_channel (int a) (int b) t \<le> max (int a) (int b)"
    using assms by (intro lerp_channel_between) simp_all
  then have r: "min (int a) (int b) \<le> lerp_channel (int a) (int b) t"
    "lerp_channel (int a) (int b) t \<le> max (int a) (int b)" by simp_all
  define k where "k = nat (lerp_channel (int a) (int b) t)"
  have 0: "0 \<le> lerp_channel (int a) (int b) t" using r(1) by simp
  then have e: "lerp_channel (int a) (int b) t = int k" by (simp add: k_def)
  have "k < 256" using r(2) e assms(1,2) by simp
  then show ?thesis using that e r by simp
qed

lemma byte_lt: "hexval x = Some h \<Longrightarrow> hexval y = Some l \<Longrightarrow> 16 * h + l < 256"
  using hexval_lt [of x h] hexval_lt [of y l] by simp


text \<open>
  C10, as stated, fails: the result is formatted with \<open>{:02x}\<close>, in lower case, so
  interpolating at 0 from the program's own colour \<open>#FF69B4\<close> does not return that string.
\<close>

theorem lerp_colour_counterexample:
  "is_hex_colour PINK \<and> is_hex_colour PURPLE \<and> lerp_colour PINK PURPLE 0 \<noteq> Some PINK"
proof -
  have 1: "is_hex_colour PINK" by code_simp
  have 2: "is_hex_colour PURPLE" by code_simp
  have "lerp_colour PINK PURPLE 0 = Some ''#ff69b4''" by code_simp
  then have 3: "lerp_colour PINK PURPLE 0 \<noteq> Some PINK" by (simp add: PINK_def)
  from 1 2 3 show ?thesis by simp
qed

text \<open>
  C10, amended. For colour strings \<open>c1\<close>, \<open>c2\<close> made of a hash and six hexadecimal digits
  of either case: interpolating at 0 gives \<open>c1\<close> in lower case, at 1 gives \<open>c2\<close> in lower
  case (the same colours, and the same strings when they have no upper-case digit); and
  for every \<open>t\<close> from 0 to 1 the result is a seven-character lower-case colour string
  each of whose channels lies between the corresponding channels of \<open>c1\<close> and \<open>c2\<close>.
\<close>

theorem lerp_colour_endpoints_and_range:
  assumes "is_hex_colour c1" and "is_hex_colour c2"
  shows "lerp_colour c1 c2 0 = Some (lower_hex c1)
       \<and> lerp_colour c1 c2 1 = Some (lower_hex c2)
       \<and> (0 \<le> t \<and> t \<le> 1 \<longrightarrow>
            (\<exists>c r1 g1 b1 r2 g2 b2 r g b.
               lerp_colour c1 c2 t = Some c \<and> is_hex_colour c \<and> lower_hex c = c \<and>
               channels c1 = Some (r1, g1, b1) \<and> channels c2 = Some (r2, g2, b2) \<and>
               channels c = Some (r, g, b) \<and>
               min r1 r2 \<le> r \<and> r \<le> max r1 r2 \<and>
               min g1 g2 \<le> g \<and> g \<le> max g1 g2 \<and>
               min b1 b2 \<le> b \<and> b \<le> max b1 b2))"
proof -
  from assms(1) obtain x1 x2 x3 x4 x5 x6 h1 h2 h3 h4 h5 h6
    where c1: "c1 = [CHR ''#'', x1, x2, x3, x4, x5, x6]"
      and x: "hexval x1 = Some h1" "hexval x2 = Some h2" "hexval x3 = Some h3"
        "hexval x4 = Some h4" "hexval x5 = Some h5" "hexval x6 = Some h6"
    by (rule hex_colour_shape)
  from assms(2) obtain y1 y2 y3 y4 y5 y6 l1 l2 l3 l4 l5 l6
    where c2: "c2 = [CHR ''#'', y1, y2, y3, y4, y5, y6]"
      and y: "hexval y1 = Some l1" "hexval y2 = Some l2" "hexval y3 = Some l3"
        "hexval y4 = Some l4" "hexval y5 = Some l5" "hexval y6 = Some l6"
    by (rule hex_colour_shape)
  define r1 g1 b1 where "r1 = 16 * h1 + h2" and "g1 = 16 * h3 + h4" and "b1 = 16 * h5 + h6"
  define r2 g2 b2 where "r2 = 16 * l1 + l2" and "g2 = 16 * l3 + l4" and "b2 = 16 * l5 + l6"
  have ch1: "channels c1 = Some (int r1, int g1, int b1)"
    unfolding c1 r1_def g1_def b1_def using x by (rule channels_shape)
  have ch2: "channels c2 = Some (int r2, int g2, int b2)"
    unfolding c2 r2_def g2_def b2_def using y by (rule channels_shape)
  have lt: "r1 < 256" "g1 < 256" "b1 < 256" "r2 < 256" "g2 < 256" "b2 < 256"
    unfolding r1_def g1_def b1_def r2_def g2_def b2_def using x y by (simp_all add: byte_lt)
  have lerp: "lerp_colour c1 c2 u =
        Some (CHR ''#'' # fmt02x (lerp_channel (int r1) (int r2) u)
                @ fmt02x (lerp_channel (int g1) (int g2) u)
                @ fmt02x (lerp_channel (int b1) (int b2) u))" for u
    by (simp add: lerp_colour_def ch1 ch2)
  have f1: "fmt02x (int r1) = [lower1 x1, lower1 x2]" "fmt02x (int g1) = [lower1 x3, lower1 x4]"
    "fmt02x (int b1) = [lower1 x5, lower1 x6]"
    unfolding r1_def g1_def b1_def using x by (simp_all only: fmt02x_int16)
  have f2: "fmt02x (int r2) = [lower1 y1, lower1 y2]" "fmt02x (int g2) = [lower1 y3, lower1 y4]"
    "fmt02x (int b2) = [lower1 y5, lower1 y6]"
    unfolding r2_def g2_def b2_def using y by (simp_all only: fmt02x_int16)
  have big: "\<bar>int r1\<bar> < 2 ^ 53" "\<bar>int g1\<bar> < 2 ^ 53" "\<bar>int b1\<bar> < 2 ^ 53"
    "\<bar>int r2\<bar> < 2 ^ 53" "\<bar>int g2\<bar> < 2 ^ 53" "\<bar>int b2\<bar> < 2 ^ 53"
    "\<bar>int r2 - int r1\<bar> < 2 ^ 53" "\<bar>int g2 - int g1\<bar> < 2 ^ 53"
    "\<bar>int b2 - int b1\<bar> < 2 ^ 53"
    using lt by simp_all
  have l1: "lower_hex c1 = [CHR ''#'', lower1 x1, lower1 x2, lower1 x3, lower1 x4, lower1 x5, lower1 x6]"
    by (simp add: c1 lower_hex_map lower1_hash)
  have l2: "lower_hex c2 = [CHR ''#'', lower1 y1, lower1 y2, lower1 y3, lower1 y4, lower1 y5, lower1 y6]"
    by (simp add: c2 lower_hex_map lower1_hash)
  have z: "lerp_channel (int r1) (int r2) 0 = int r1" "lerp_channel (int g1) (int g2) 0 = int g1"
    "lerp_channel (int b1) (int b2) 0 = int b1"
    using big by (simp_all only: lerp_channel_0)
  have o: "lerp_channel (int r1) (int r2) 1 = int r2" "lerp_channel (int g1) (int g2) 1 = int g2"
    "lerp_channel (int b1) (int b2) 1 = int b2"
    using big by (simp_all only: lerp_channel_1)
  have A: "lerp_colour c1 c2 0 = Some (lower_hex c1)"
    unfolding lerp z f1 l1 by simp
  have B: "lerp_colour c1 c2 1 = Some (lower_hex c2)"
    unfolding lerp o f2 l2 by simp
  have C: "\<exists>c r1 g1 b1 r2 g2 b2 r g b.
               lerp_colour c1 c2 t = Some c \<and> is_hex_colour c \<and> lower_hex c = c \<and>
               channels c1 = Some (r1, g1, b1) \<and> channels c2 = Some (r2, g2, b2) \<and>
               channels c = Some (r, g, b) \<and>
               min r1 r2 \<le> r \<and> r \<le> max r1 r2 \<and>
               min g1 g2 \<le> g \<and> g \<le> max g1 g2 \<and>
               min b1 b2 \<le> b \<and> b \<le> max b1 b2"
    if t: "0 \<le> t" "t \<le> 1"
  proof -
    from lt(1,4) t obtain kr where kr: "kr < 256" "lerp_channel (int r1) (int r2) t = int kr"
      "min (int r1) (int r2) \<le> int kr" "int kr \<le> max (int r1) (int r2)"
      by (rule lerp_byte)
    from lt(2,5) t obtain kg where kg: "kg < 256" "lerp_channel (int g1) (int g2) t = int kg"
      "min (int g1) (int g2) \<le> int kg" "int kg \<le> max (int g1) (int g2)"
      by (rule lerp_byte)
    from lt(3,6) t obtain kb where kb: "kb < 256" "lerp_channel (int b1) (int b2) t = int kb"
      "min (int b1) (int b2) \<le> int kb" "int kb \<le> max (int b1) (int b2)"
      by (rule lerp_byte)
    define c where "c = CHR ''#'' # fmt02x (int kr) @ fmt02x (int kg) @ fmt02x (int kb)"
    have l: "lerp_colour c1 c2 t = Some c" by (simp add: lerp kr(2) kg(2) kb(2) c_def)
    have f: "is_hex_colour c \<and> lower_hex c = c \<and> channels c = Some (int kr, int kg, int kb)"
      unfolding c_def using kr(1) kg(1) kb(1) by (rule formatted_colour)
    show ?thesis
      using l f ch1 ch2 kr(3,4) kg(3,4) kb(3,4) by blast
  qed
  from A B C show ?thesis by blast
qed


theorem lerp_colour_endpoints_and_range_witness:
  "lerp_colour PINK PURPLE 0 = Some (lower_hex PINK)"
proof -
  have 1: "is_hex_colour PINK" by code_simp
  have 2: "is_hex_colour PURPLE" by code_simp
  from lerp_colour_endpoints_and_range [OF 1 2] show ?thesis by (rule conjunct1)
qed

section \<open>Properties of the fade\<close>

subsection \<open>One frame\<close>

lemma step_val: "step = 3602879701896397 / 2 ^ 55"
  by code_simp

lemma fl_one_plus: "fl (1 + eps53) = 1"
  by code_simp

lemma fl_small: "fl (16 * eps53) = 16 * eps53"
  by code_simp

lemma eps53_pos: "0 < eps53"
  by (simp add: eps53_def)

lemma fl_1: "fl 1 = 1"
  using fl_of_int [of 1] by simp

lemma step_bounds: "1 / 10 < step" "step < 1 / 8" "16 * eps53 < step"
  by (simp_all add: step_val eps53_def)

lemma chase_fix: "t = 0 \<or> t = 1 \<Longrightarrow> chase t t = t"
  using step_bounds(1) by (auto simp: chase_def fl_0)

lemma err_lt2:
  assumes "\<bar>x\<bar> < 2"
  shows "\<bar>fl x - x\<bar> \<le> eps53"
proof -
  have "\<bar>x\<bar> < 2 powi (0 + 1)" using assms by simp
  then have "\<bar>fl x - x\<bar> \<le> 2 powi (0 - 53)" by (rule fl_err_bound) simp
  moreover have "(2::rat) powi (0 - 53) = eps53" by (simp add: power_int_minus_divide eps53_def)
  ultimately show ?thesis by simp
qed

lemma chase_up:
  assumes "is_float d" and "0 \<le> d" and "d \<le> 1"
  shows "chase 1 d = (if \<bar>fl (1 - d)\<bar> < step then 1 else fl (d + step))
       \<and> d \<le> chase 1 d \<and> chase 1 d \<le> 1 \<and> is_float (chase 1 d)
       \<and> (chase 1 d = 1 \<or> 1 - chase 1 d \<le> (1 - d) - step + eps53)"
proof -
  define diff where "diff = fl (1 - d)"
  have d0: "0 \<le> diff" unfolding diff_def using assms(3) by (intro fl_nonneg) simp
  have fd: "fl d = d" using assms(1) by (simp add: is_float_def)
  have eq: "chase 1 d = (if \<bar>fl (1 - d)\<bar> < step then 1 else fl (d + step))"
    using d0 step_bounds(1) by (auto simp: chase_def Let_def diff_def)
  show ?thesis
  proof (cases "\<bar>diff\<bar> < step")
    case True
    then show ?thesis using assms(3) eq by (simp add: diff_def is_float_def fl_1)
  next
    case n: False
    have c: "chase 1 d = fl (d + step)" using n by (simp add: eq diff_def)
    have "fl d \<le> fl (d + step)" using step_bounds(1) by (intro fl_mono) simp
    then have 1: "d \<le> chase 1 d" by (simp add: c fd)
    have "\<bar>1 - d\<bar> < 2" using assms(2,3) by simp
    then have "\<bar>diff - (1 - d)\<bar> \<le> eps53" unfolding diff_def by (rule err_lt2)
    moreover have "step \<le> diff" using n d0 by simp
    ultimately have "d + step \<le> 1 + eps53" by linarith
    then have "fl (d + step) \<le> fl (1 + eps53)" by (rule fl_mono)
    then have 2: "chase 1 d \<le> 1" unfolding c fl_one_plus .
    have 3: "is_float (chase 1 d)" by (simp add: c is_float_def fl_idem)
    have "\<bar>d + step\<bar> < 2" using assms(2,3) step_bounds(1,2) by simp
    then have "\<bar>fl (d + step) - (d + step)\<bar> \<le> eps53" by (rule err_lt2)
    then have 4: "1 - chase 1 d \<le> (1 - d) - step + eps53"
      unfolding c by linarith
    from eq 1 2 3 4 show ?thesis by simp
  qed
qed

lemma chase_down:
  assumes "is_float d" and "0 \<le> d" and "d \<le> 1"
  shows "chase 0 d = (if \<bar>fl (0 - d)\<bar> < step then 0 else fl (d - step))
       \<and> 0 \<le> chase 0 d \<and> chase 0 d \<le> d \<and> is_float (chase 0 d)
       \<and> (chase 0 d = 0 \<or> chase 0 d \<le> d - step + eps53)"
proof -
  have fd: "fl d = d" using assms(1) by (simp add: is_float_def)
  have diff: "fl (- d) = - d" using fl_neg [of d] by (simp add: fd)
  have eq: "chase 0 d = (if \<bar>fl (0 - d)\<bar> < step then 0 else fl (d - step))"
    using assms(2) step_bounds(1) by (auto simp: chase_def Let_def diff)
  show ?thesis
  proof (cases "d < step")
    case True
    then show ?thesis using assms(2) eq by (simp add: diff is_float_def fl_0)
  next
    case n: False
    have c: "chase 0 d = fl (d - step)" using n assms(2) eq by (simp add: diff)
    have 1: "0 \<le> chase 0 d" unfolding c using n by (intro fl_nonneg) simp
    have "fl (d - step) \<le> fl d" using step_bounds(1) by (intro fl_mono) simp
    then have 2: "chase 0 d \<le> d" by (simp add: c fd)
    have 3: "is_float (chase 0 d)" by (simp add: c is_float_def fl_idem)
    have "\<bar>d - step\<bar> < 2" using assms(2,3) step_bounds(1,2) by simp
    then have "\<bar>fl (d - step) - (d - step)\<bar> \<le> eps53" by (rule err_lt2)
    then have 4: "chase 0 d \<le> d - step + eps53" unfolding c by linarith
    from eq 1 2 3 4 show ?thesis by simp
  qed
qed

subsection \<open>The first frames from muted to live\<close>

lemma up1: "chase 1 0 = 3602879701896397 / 2 ^ 55" by code_simp
lemma up2: "chase 1 (3602879701896397 / 2 ^ 55) = 3602879701896397 / 2 ^ 54" by code_simp
lemma up3: "chase 1 (3602879701896397 / 2 ^ 54) = 1351079888211149 / 2 ^ 52" by code_simp
lemma up4: "chase 1 (1351079888211149 / 2 ^ 52) = 3602879701896397 / 2 ^ 53" by code_simp
lemma up5: "chase 1 (3602879701896397 / 2 ^ 53) = 1 / 2" by code_simp
lemma up6: "chase 1 (1 / 2) = 5404319552844595 / 2 ^ 53" by code_simp
lemma up7: "chase 1 (5404319552844595 / 2 ^ 53) = 3152519739159347 / 2 ^ 52" by code_simp
lemma up8: "chase 1 (3152519739159347 / 2 ^ 52) = 7205759403792793 / 2 ^ 53" by code_simp
lemma up9: "chase 1 (7205759403792793 / 2 ^ 53) = 2026619832316723 / 2 ^ 51" by code_simp
lemma up10: "chase 1 (2026619832316723 / 2 ^ 51) = 9007199254740991 / 2 ^ 53" by code_simp

lemma up_ten: "(chase 1 ^^ 10) 0 = 9007199254740991 / 2 ^ 53"
proof -
  have "(chase 1 ^^ 10) 0 =
        chase 1 (chase 1 (chase 1 (chase 1 (chase 1 (chase 1 (chase 1 (chase 1 (chase 1
          (chase 1 0)))))))))"
    by (simp add: numeral_eq_Suc)
  then show ?thesis unfolding up1 up2 up3 up4 up5 up6 up7 up8 up9 up10 .
qed

lemma up_three: "(chase 1 ^^ 3) 0 - (chase 1 ^^ 2) 0 \<noteq> step"
proof -
  have "(chase 1 ^^ 3) 0 = chase 1 (chase 1 (chase 1 0))" "(chase 1 ^^ 2) 0 = chase 1 (chase 1 0)"
    by (simp_all add: numeral_eq_Suc)
  then have "(chase 1 ^^ 3) 0 = 1351079888211149 / 2 ^ 52" "(chase 1 ^^ 2) 0 = 3602879701896397 / 2 ^ 54"
    unfolding up1 up2 up3 by simp_all
  then show ?thesis by (simp add: step_val)
qed

lemma frame_bound_0_1: "frame_bound 1 0 = 10"
proof -
  have "\<lceil>(1::rat) / (3602879701896397 / 2 ^ 55)\<rceil> = 10"
    by (simp add: ceiling_eq_iff)
  then show ?thesis by (simp add: frame_bound_def step_val)
qed

lemma target_animate: "target_live (animate s) = target_live s"
  by (simp add: animate_def tk_def Let_def)

lemma display_animate: "display_live (animate s) = chase (target_live s) (display_live s)"
  by (simp add: animate_def tk_def Let_def)

lemma target_frames: "target_live ((animate ^^ n) s) = target_live s"
  by (induction n) (simp_all add: target_animate)

lemma display_frames:
  "display_live ((animate ^^ n) s) = (chase (target_live s) ^^ n) (display_live s)"
  by (induction n) (simp_all add: display_animate target_frames)

lemma live_overlay_fields: "display_live live_overlay = 0" "target_live live_overlay = 1"
  by (simp_all add: live_overlay_def set_state_def init_overlay_def)


subsection \<open>Many frames\<close>

lemma chase_step:
  assumes "is_float d" and "0 \<le> d" and "d \<le> 1" and "t = 0 \<or> t = 1"
  shows "is_float (chase t d) \<and> 0 \<le> chase t d \<and> chase t d \<le> 1
       \<and> (t = 1 \<longrightarrow> d \<le> chase t d) \<and> (t = 0 \<longrightarrow> chase t d \<le> d)
       \<and> (chase t d = t \<or> \<bar>t - chase t d\<bar> \<le> \<bar>t - d\<bar> - (step - eps53))"
proof (cases "t = 1")
  case True
  from chase_up [OF assms(1-3)] have u: "d \<le> chase 1 d" "chase 1 d \<le> 1" "is_float (chase 1 d)"
    and v: "chase 1 d = 1 \<or> 1 - chase 1 d \<le> (1 - d) - step + eps53" by blast+
  have 0: "0 \<le> chase 1 d" using u(1) assms(2) by linarith
  have "chase 1 d = 1 \<or> \<bar>1 - chase 1 d\<bar> \<le> \<bar>1 - d\<bar> - (step - eps53)"
    using v u(2) assms(3) by linarith
  then show ?thesis using True u 0 by simp
next
  case False
  then have t: "t = 0" using assms(4) by simp
  from chase_down [OF assms(1-3)] have u: "0 \<le> chase 0 d" "chase 0 d \<le> d" "is_float (chase 0 d)"
    and v: "chase 0 d = 0 \<or> chase 0 d \<le> d - step + eps53" by blast+
  have 1: "chase 0 d \<le> 1" using u(2) assms(3) by linarith
  have "chase 0 d = 0 \<or> \<bar>0 - chase 0 d\<bar> \<le> \<bar>0 - d\<bar> - (step - eps53)"
    using v u(1) assms(2) by linarith
  then show ?thesis using t u 1 by simp
qed

lemma chase_snap:
  assumes "is_float d" and "0 \<le> d" and "d \<le> 1" and "t = 0 \<or> t = 1"
    and "\<bar>t - d\<bar> \<le> 16 * eps53"
  shows "chase t d = t"
proof (cases "t = 1")
  case True
  have "0 \<le> fl (1 - d)" using assms(3) by (intro fl_nonneg) simp
  moreover have "1 - d \<le> 16 * eps53" using assms(5) True by linarith
  then have "fl (1 - d) \<le> fl (16 * eps53)" by (rule fl_mono)
  ultimately have "\<bar>fl (1 - d)\<bar> < step" using step_bounds(3) unfolding fl_small by linarith
  then show ?thesis using chase_up [OF assms(1-3)] True by simp
next
  case False
  then have t: "t = 0" using assms(4) by simp
  have fd: "fl d = d" using assms(1) by (simp add: is_float_def)
  have "fl (0 - d) = - d" using fl_neg [of d] by (simp add: fd)
  moreover have "d < step" using assms(2,5) t step_bounds(3) by linarith
  ultimately have "\<bar>fl (0 - d)\<bar> < step" using assms(2) by simp
  then show ?thesis using chase_down [OF assms(1-3)] t by simp
qed

lemma chase_iter:
  assumes "is_float d" and "0 \<le> d" and "d \<le> 1" and "t = 0 \<or> t = 1"
  shows "is_float ((chase t ^^ n) d) \<and> 0 \<le> (chase t ^^ n) d \<and> (chase t ^^ n) d \<le> 1
       \<and> ((chase t ^^ n) d = t
           \<or> \<bar>t - (chase t ^^ n) d\<bar> \<le> \<bar>t - d\<bar> - of_nat n * (step - eps53))"
proof (induction n)
  case 0
  then show ?case using assms by simp
next
  case (Suc n)
  define c where "c = step - eps53"
  define a where "a = (chase t ^^ n) d"
  have s: "(chase t ^^ Suc n) d = chase t a" by (simp add: a_def)
  from Suc have a: "is_float a" "0 \<le> a" "a \<le> 1"
    and r: "a = t \<or> \<bar>t - a\<bar> \<le> \<bar>t - d\<bar> - of_nat n * c"
    by (simp_all add: a_def c_def)
  from chase_step [OF a assms(4)]
  have b: "is_float (chase t a)" "0 \<le> chase t a" "chase t a \<le> 1"
    and q: "chase t a = t \<or> \<bar>t - chase t a\<bar> \<le> \<bar>t - a\<bar> - c"
    unfolding c_def by blast+
  have m: "of_nat (Suc n) * c = of_nat n * c + c" by (simp add: algebra_simps)
  have "chase t a = t \<or> \<bar>t - chase t a\<bar> \<le> \<bar>t - d\<bar> - of_nat (Suc n) * c"
  proof (cases "a = t")
    case True
    then show ?thesis using chase_fix [OF assms(4)] by simp
  next
    case False
    then have "\<bar>t - a\<bar> \<le> \<bar>t - d\<bar> - of_nat n * c" using r by simp
    then show ?thesis using q unfolding m by linarith
  qed
  then show ?case using b unfolding s c_def by simp
qed

lemma chase_stays:
  assumes "t = 0 \<or> t = 1"
  shows "(chase t ^^ k) t = t"
  by (induction k) (simp_all add: chase_fix [OF assms])

lemma frame_bound_le:
  assumes "0 \<le> d" and "d \<le> 1" and "t = 0 \<or> t = 1"
  shows "frame_bound t d \<le> 10" and "\<bar>t - d\<bar> \<le> of_nat (frame_bound t d) * step"
proof -
  define x where "x = \<bar>t - d\<bar> / step"
  have s: "0 < step" using step_bounds(1) by simp
  have dist: "0 \<le> \<bar>t - d\<bar>" "\<bar>t - d\<bar> \<le> 1" using assms by auto
  have x0: "0 \<le> x" using s dist(1) by (simp add: x_def)
  have "\<bar>t - d\<bar> \<le> 10 * step" using dist(2) step_bounds(1) by linarith
  then have "x \<le> 10" using s by (simp add: x_def pos_divide_le_eq)
  then have "x \<le> of_int 10" by simp
  then have "\<lceil>x\<rceil> \<le> 10" by (simp only: ceiling_le_iff)
  then have "nat \<lceil>x\<rceil> \<le> 10" by linarith
  then show "frame_bound t d \<le> 10" by (simp only: frame_bound_def x_def)
  have "0 \<le> \<lceil>x\<rceil>" using x0 by simp
  then have "(of_nat (nat \<lceil>x\<rceil>) :: rat) = of_int \<lceil>x\<rceil>" by simp
  then have "x \<le> of_nat (frame_bound t d)" by (simp add: frame_bound_def x_def)
  then have "x * step \<le> of_nat (frame_bound t d) * step"
    using s by (simp only: mult_le_cancel_right_pos)
  moreover have "x * step = \<bar>t - d\<bar>" using s by (simp add: x_def)
  ultimately show "\<bar>t - d\<bar> \<le> of_nat (frame_bound t d) * step" by simp
qed

lemma chase_reaches:
  assumes "is_float d" and "0 \<le> d" and "d \<le> 1" and "t = 0 \<or> t = 1"
    and "frame_bound t d + 1 \<le> n"
  shows "(chase t ^^ n) d = t"
proof -
  define N where "N = frame_bound t d"
  define a where "a = (chase t ^^ N) d"
  from chase_iter [OF assms(1-4), of N]
  have a: "is_float a" "0 \<le> a" "a \<le> 1"
    and r: "a = t \<or> \<bar>t - a\<bar> \<le> \<bar>t - d\<bar> - of_nat N * (step - eps53)"
    by (simp_all add: a_def)
  have N10: "N \<le> 10" and cover: "\<bar>t - d\<bar> \<le> of_nat N * step"
    unfolding N_def using assms(2-4) by (rule frame_bound_le)+
  have "chase t a = t"
  proof (cases "a = t")
    case True
    then show ?thesis using chase_fix [OF assms(4)] by simp
  next
    case False
    then have "\<bar>t - a\<bar> \<le> \<bar>t - d\<bar> - of_nat N * (step - eps53)" using r by simp
    moreover have "of_nat N * (step - eps53) = of_nat N * step - of_nat N * eps53"
      by (simp add: algebra_simps)
    ultimately have "\<bar>t - a\<bar> \<le> of_nat N * eps53" using cover by linarith
    moreover have "(of_nat N :: rat) \<le> 10" using N10 by simp
    then have "of_nat N * eps53 \<le> 10 * eps53"
      using eps53_pos by (simp only: mult_le_cancel_right_pos)
    moreover have "10 * eps53 \<le> 16 * eps53" using eps53_pos by simp
    ultimately have "\<bar>t - a\<bar> \<le> 16 * eps53" by linarith
    with a assms(4) show ?thesis by (rule chase_snap)
  qed
  then have "(chase t ^^ Suc N) d = t" by (simp add: a_def)
  moreover obtain k where "n = k + Suc N" using assms(5) unfolding N_def
    by (metis Suc_eq_plus1 le_Suc_ex add.commute)
  ultimately have "(chase t ^^ n) d = (chase t ^^ k) t"
    unfolding N_def [symmetric] by (simp only: funpow_add o_apply)
  then show ?thesis by (simp only: chase_stays [OF assms(4)])
qed


text \<open>
  C3, as stated, fails in float arithmetic. From the display level 0 with the target 1
  the bound \<open>ceil(|target - initial| / step)\<close> is 10, yet after 10 frames the display
  level is still below the target (it is reached by the eleventh frame); and the third
  frame, which does not snap, moves the level by more than \<open>step\<close>.
\<close>

theorem fade_frames_counterexample:
  "is_float (display_live live_overlay) \<and> display_live live_overlay = 0
   \<and> target_live live_overlay = 1
   \<and> frame_bound (target_live live_overlay) (display_live live_overlay) = 10
   \<and> display_live ((animate ^^ 10) live_overlay) \<noteq> target_live live_overlay
   \<and> display_live ((animate ^^ 3) live_overlay) - display_live ((animate ^^ 2) live_overlay) \<noteq> step
   \<and> \<not> \<bar>target_live ((animate ^^ 2) live_overlay) - display_live ((animate ^^ 2) live_overlay)\<bar> < step"
proof -
  have "(chase 1 ^^ 2) 0 = chase 1 (chase 1 0)" by (simp add: numeral_eq_Suc)
  then have two: "(chase 1 ^^ 2) 0 = 3602879701896397 / 2 ^ 54" unfolding up1 up2 .
  have "\<not> \<bar>1 - (chase 1 ^^ 2) 0\<bar> < step" unfolding two by (simp add: step_val)
  moreover have "(chase 1 ^^ 10) 0 \<noteq> 1" unfolding up_ten by simp
  ultimately show ?thesis
    using up_three
    by (simp add: display_frames target_frames live_overlay_fields frame_bound_0_1
        is_float_def fl_0)
qed

text \<open>
  C3, amended. For every float display level in [0,1] and target in {0,1}: a frame sets
  the display level to the target when the rounded difference to the target is below
  \<open>step\<close> in magnitude, and otherwise to the display level plus (target 1) or minus
  (target 0) \<open>step\<close>, rounded to the nearest float, where \<open>step\<close> is the float
  \<open>3.0 * (1.0 / 30)\<close>, the float nearest to one tenth. While the target is held, the
  target stays, every display level is a float in [0,1], the levels never decrease
  towards target 1 and never increase towards target 0, and from frame
  \<open>ceil(|target - initial| / step) + 1\<close> on the display level is the target.
\<close>

theorem fade_converges:
  assumes "is_float (display_live s)" and "0 \<le> display_live s" and "display_live s \<le> 1"
    and "target_live s = 0 \<or> target_live s = 1"
  shows "display_live (animate s) =
           (if \<bar>fl (target_live s - display_live s)\<bar> < step then target_live s
            else if target_live s = 1 then fl (display_live s + step)
            else fl (display_live s - step))
       \<and> step = 3602879701896397 / 2 ^ 55
       \<and> (\<forall>n. target_live ((animate ^^ n) s) = target_live s
              \<and> is_float (display_live ((animate ^^ n) s))
              \<and> 0 \<le> display_live ((animate ^^ n) s) \<and> display_live ((animate ^^ n) s) \<le> 1
              \<and> (target_live s = 1 \<longrightarrow>
                    display_live ((animate ^^ n) s) \<le> display_live ((animate ^^ Suc n) s))
              \<and> (target_live s = 0 \<longrightarrow>
                    display_live ((animate ^^ Suc n) s) \<le> display_live ((animate ^^ n) s)))
       \<and> (\<forall>n. frame_bound (target_live s) (display_live s) + 1 \<le> n \<longrightarrow>
              display_live ((animate ^^ n) s) = target_live s)"
proof (intro conjI allI impI)
  define t where "t = target_live s"
  define d where "d = display_live s"
  have t: "t = 0 \<or> t = 1" using assms(4) by (simp add: t_def)
  have d: "is_float d" "0 \<le> d" "d \<le> 1" using assms(1-3) by (simp_all add: d_def)
  show "step = 3602879701896397 / 2 ^ 55" by (rule step_val)
  show "display_live (animate s) =
           (if \<bar>fl (target_live s - display_live s)\<bar> < step then target_live s
            else if target_live s = 1 then fl (display_live s + step)
            else fl (display_live s - step))"
    using chase_up [OF d] chase_down [OF d] t
    by (auto simp: display_animate t_def [symmetric] d_def [symmetric])
  fix n
  define a where "a = (chase t ^^ n) d"
  from chase_iter [OF d t, of n] have a: "is_float a" "0 \<le> a" "a \<le> 1" by (simp_all add: a_def)
  have dn: "display_live ((animate ^^ n) s) = a" by (simp add: display_frames a_def t_def d_def)
  have ds: "display_live ((animate ^^ Suc n) s) = chase t a"
    unfolding display_frames by (simp add: a_def t_def d_def)
  show "target_live ((animate ^^ n) s) = target_live s" by (rule target_frames)
  show "is_float (display_live ((animate ^^ n) s))" unfolding dn by (rule a)
  show "0 \<le> display_live ((animate ^^ n) s)" unfolding dn by (rule a)
  show "display_live ((animate ^^ n) s) \<le> 1" unfolding dn by (rule a)
  show "display_live ((animate ^^ n) s) \<le> display_live ((animate ^^ Suc n) s)"
    if "target_live s = 1"
    unfolding dn ds using chase_step [OF a t] that by (simp add: t_def)
  show "display_live ((animate ^^ Suc n) s) \<le> display_live ((animate ^^ n) s)"
    if "target_live s = 0"
    unfolding dn ds using chase_step [OF a t] that by (simp add: t_def)
  show "display_live ((animate ^^ n) s) = target_live s"
    if "frame_bound (target_live s) (display_live s) + 1 \<le> n"
    using chase_reaches [OF d t, of n] that by (simp add: display_frames t_def d_def)
qed

theorem fade_converges_witness:
  "display_live ((animate ^^ 11) live_overlay) = 1"
proof -
  have 1: "is_float (display_live live_overlay)"
    by (simp add: live_overlay_fields is_float_def fl_0)
  have 2: "0 \<le> display_live live_overlay" "display_live live_overlay \<le> 1"
    by (simp_all add: live_overlay_fields)
  have 3: "target_live live_overlay = 0 \<or> target_live live_overlay = 1"
    by (simp add: live_overlay_fields)
  have 4: "frame_bound (target_live live_overlay) (display_live live_overlay) + 1 \<le> 11"
    by (simp add: live_overlay_fields frame_bound_0_1)
  from fade_converges [OF 1 2 3] 4 show ?thesis
    by (simp add: live_overlay_fields)
qed

end
